theory Spec2Isabelle
  imports Main "HOL-Library.AList"
begin

section \<open>The Python built-ins the module relies on\<close>

text \<open>
  The module \<^verbatim>\<open>main.py\<close> uses Python's unbounded integers (\<^typ>\<open>int\<close>), strings, lists
  and dictionaries. A string is a list of code points below 256; a dictionary from
  integers to integers is an association list in insertion order whose keys are
  distinct: \<open>map_of\<close> is the lookup, \<open>AList.update\<close> the assignment \<^verbatim>\<open>d[k] = v\<close> (an
  existing key keeps its place, a new key goes to the end) and \<open>AList.delete\<close> is
  \<^verbatim>\<open>d.pop(k)\<close>.

  The only exception the module can raise on integer and string arguments is
  \<^verbatim>\<open>ValueError\<close>: from \<^verbatim>\<open>int(x)\<close>, from \<^verbatim>\<open>max\<close> of an empty list and from
  \<^verbatim>\<open>list.remove\<close> of an absent element.
\<close>

datatype error = ValueError

type_synonym pydict = "(int \<times> int) list"

text \<open>\<^verbatim>\<open>str.isspace\<close> on a single code point below 256.\<close>

definition isspace :: "char \<Rightarrow> bool" where
  "isspace c = (of_char c \<in> {9, 10, 11, 12, 13, 28, 29, 30, 31, 32, 133, 160 :: nat})"

text \<open>\<^verbatim>\<open>s.strip()\<close>\<close>

definition str_strip :: "string \<Rightarrow> string" where
  "str_strip s = rev (dropWhile isspace (rev (dropWhile isspace s)))"

text \<open>
  \<^verbatim>\<open>s.split(sep)\<close> for a non-empty separator: the occurrences of \<open>sep\<close> are found from
  left to right and do not overlap; the result always has at least one piece.
\<close>

fun str_split :: "string \<Rightarrow> string \<Rightarrow> string list" where
  "str_split sep [] = [[]]"
| "str_split sep (c # cs) =
     (if take (length sep) (c # cs) = sep
      then [] # str_split sep (drop (length sep - 1) cs)
      else (case str_split sep cs of
              p # ps \<Rightarrow> (c # p) # ps
            | [] \<Rightarrow> [[c]]))"

text \<open>\<^verbatim>\<open>sep.join(xs)\<close>\<close>

fun str_join :: "string \<Rightarrow> string list \<Rightarrow> string" where
  "str_join sep [] = []"
| "str_join sep [x] = x"
| "str_join sep (x # y # ys) = x @ sep @ str_join sep (y # ys)"

text \<open>
  \<^verbatim>\<open>int(x)\<close> on a string: surrounding white space is ignored, then an optional sign,
  then decimal digits, where single underscores may stand between two digits.
  Everything else raises \<^verbatim>\<open>ValueError\<close>. (The interpreter's configurable limit on the
  number of digits is not part of the model.)
\<close>

definition is_digit :: "char \<Rightarrow> bool" where
  "is_digit c = (48 \<le> (of_char c :: nat) \<and> (of_char c :: nat) \<le> 57)"

definition digit_val :: "char \<Rightarrow> int" where
  "digit_val c = int (of_char c) - 48"

fun digits_value :: "int \<Rightarrow> string \<Rightarrow> int option" where
  "digits_value acc [] = Some acc"
| "digits_value acc [c] = (if is_digit c then Some (10 * acc + digit_val c) else None)"
| "digits_value acc (c # d # ds) =
     (if is_digit c then digits_value (10 * acc + digit_val c) (d # ds)
      else if c = CHR ''_'' \<and> is_digit d then digits_value (10 * acc + digit_val d) ds
      else None)"

definition unsigned_value :: "string \<Rightarrow> int option" where
  "unsigned_value body =
     (case body of
        [] \<Rightarrow> None
      | c # cs \<Rightarrow> if is_digit c then digits_value (digit_val c) cs else None)"

definition py_int :: "string \<Rightarrow> error + int" where
  "py_int x =
     (let t = str_strip x;
          r = (case t of
                 [] \<Rightarrow> None
               | c # cs \<Rightarrow>
                   if c = CHR ''-'' then map_option uminus (unsigned_value cs)
                   else if c = CHR ''+'' then unsigned_value cs
                   else unsigned_value t)
      in case r of None \<Rightarrow> Inl ValueError | Some v \<Rightarrow> Inr v)"

text \<open>\<^verbatim>\<open>str(x)\<close> on an integer: its decimal digits, after a minus sign when negative.\<close>

fun nat_digits :: "nat \<Rightarrow> string" where
  "nat_digits n =
     (if n < 10 then [char_of (48 + n)]
      else nat_digits (n div 10) @ [char_of (48 + n mod 10)])"

declare nat_digits.simps [simp del]

definition py_str :: "int \<Rightarrow> string" where
  "py_str x = (if x < 0 then CHR ''-'' # nat_digits (nat (- x)) else nat_digits (nat x))"

text \<open>\<^verbatim>\<open>max(seq)\<close>, which raises \<^verbatim>\<open>ValueError\<close> on an empty list.\<close>

definition py_max :: "int list \<Rightarrow> error + int" where
  "py_max seq = (case seq of [] \<Rightarrow> Inl ValueError | x # xs \<Rightarrow> Inr (fold max xs x))"

section \<open>The class \<^verbatim>\<open>Cycle\<close>\<close>

text \<open>An object has the two attributes \<^verbatim>\<open>_map\<close> and \<^verbatim>\<open>_dim\<close>.\<close>

record Cycle =
  cmap :: pydict
  cdim :: int

subsection \<open>\<^verbatim>\<open>__init__\<close>\<close>

text \<open>
  The loop \<^verbatim>\<open>for key in keys: if mapping[key] == key: mapping.pop(key)\<close> works on the
  dictionary the caller passed, so the constructor returns two things: the state of
  the caller's dictionary after the call, and the new object, whose \<^verbatim>\<open>_map\<close> is a copy
  (\<^verbatim>\<open>dict(mapping)\<close>) of that state.
\<close>

fun pop_fixed :: "int list \<Rightarrow> pydict \<Rightarrow> pydict" where
  "pop_fixed [] mapping = mapping"
| "pop_fixed (key # keys) mapping =
     pop_fixed keys (if map_of mapping key = Some key then AList.delete key mapping else mapping)"

definition Cycle_init :: "pydict option \<Rightarrow> int \<Rightarrow> pydict option \<times> Cycle" where
  "Cycle_init mapping dimension =
     (case mapping of
        None \<Rightarrow> (None, \<lparr>cmap = [], cdim = dimension\<rparr>)
      | Some m \<Rightarrow>
          (let m' = pop_fixed (map fst m) m
           in (Some m', \<lparr>cmap = m', cdim = dimension\<rparr>)))"

text \<open>The object alone, where the caller's dictionary is a local that is dropped.\<close>

definition new_Cycle :: "pydict option \<Rightarrow> int \<Rightarrow> Cycle" where
  "new_Cycle mapping dimension = snd (Cycle_init mapping dimension)"

definition get_dimension :: "Cycle \<Rightarrow> int" where
  "get_dimension self = cdim self"

subsection \<open>\<^verbatim>\<open>__call__\<close>\<close>

text \<open>
  The argument is an integer by its type, so the \<^verbatim>\<open>isinstance\<close> test never raises here.
\<close>

definition call :: "Cycle \<Rightarrow> int \<Rightarrow> int" where
  "call self v = (case map_of (cmap self) v of None \<Rightarrow> v | Some w \<Rightarrow> w)"

subsection \<open>\<^verbatim>\<open>generate_single_cycle\<close>\<close>

text \<open>
  \<^verbatim>\<open>while len(seq) >= 2: current = seq.pop(0); mapping[current] = seq[0]\<close>
\<close>

fun link_loop :: "int list \<Rightarrow> pydict \<Rightarrow> pydict" where
  "link_loop (current # nxt # seq) mapping =
     link_loop (nxt # seq) (AList.update current nxt mapping)"
| "link_loop seq mapping = mapping"

definition generate_single_cycle :: "int list \<Rightarrow> error + Cycle" where
  "generate_single_cycle cycle =
     (case py_max cycle of
        Inl e \<Rightarrow> Inl e
      | Inr d \<Rightarrow> Inr (new_Cycle (Some (link_loop (cycle @ [hd cycle]) [])) d))"

subsection \<open>\<^verbatim>\<open>__mul__\<close>\<close>

text \<open>
  \<^verbatim>\<open>while to_check: current = to_check.pop(0); new_cycle[current] = self(cycle(current))\<close>
\<close>

fun mul_loop :: "Cycle \<Rightarrow> Cycle \<Rightarrow> int list \<Rightarrow> pydict \<Rightarrow> pydict" where
  "mul_loop self cycle [] new_cycle = new_cycle"
| "mul_loop self cycle (current # to_check) new_cycle =
     mul_loop self cycle to_check
       (AList.update current (call self (call cycle current)) new_cycle)"

definition mul :: "Cycle \<Rightarrow> Cycle \<Rightarrow> Cycle" where
  "mul self cycle =
     (let d = max (get_dimension self) (get_dimension cycle)
      in new_Cycle (Some (mul_loop self cycle [1..d] [])) d)"

subsection \<open>\<^verbatim>\<open>inverse\<close>\<close>

text \<open>\<^verbatim>\<open>{value: key for key, value in self._map.items()}\<close>\<close>

fun swap_items :: "(int \<times> int) list \<Rightarrow> pydict \<Rightarrow> pydict" where
  "swap_items [] new_mapping = new_mapping"
| "swap_items ((key, val) # items) new_mapping =
     swap_items items (AList.update val key new_mapping)"

definition inverse :: "Cycle \<Rightarrow> Cycle" where
  "inverse self = new_Cycle (Some (swap_items (cmap self) [])) (get_dimension self)"

subsection \<open>\<^verbatim>\<open>Cycle.Cycle\<close>, the parser\<close>

definition tokens_of :: "string \<Rightarrow> string list" where
  "tokens_of cycle = filter (\<lambda>x. x \<noteq> []) (map str_strip (str_split '','' cycle))"

fun ints_of :: "string list \<Rightarrow> error + int list" where
  "ints_of [] = Inr []"
| "ints_of (x # xs) =
     (case py_int x of
        Inl e \<Rightarrow> Inl e
      | Inr v \<Rightarrow> (case ints_of xs of Inl e \<Rightarrow> Inl e | Inr vs \<Rightarrow> Inr (v # vs)))"

text \<open>The loop over \<^verbatim>\<open>bracketed\<close>; the first token that is no integer ends it.\<close>

fun read_cycles :: "string list \<Rightarrow> error + int list list" where
  "read_cycles [] = Inr []"
| "read_cycles (cycle # bracketed) =
     (let tokens = tokens_of cycle in
      if tokens \<noteq> [] then
        (case ints_of tokens of
           Inl e \<Rightarrow> Inl e
         | Inr c \<Rightarrow> (case read_cycles bracketed of Inl e \<Rightarrow> Inl e | Inr cs \<Rightarrow> Inr (c # cs)))
      else read_cycles bracketed)"

text \<open>
  The list \<^verbatim>\<open>cycles\<close> of the \<^verbatim>\<open>while\<close> loop is \<open>raw @ [last]\<close>: the token lists not
  yet built, and the product accumulated so far at the end.
\<close>

function fold_cycles :: "int list list \<Rightarrow> Cycle \<Rightarrow> error + Cycle" where
  "fold_cycles raw lst =
     (if raw = [] then Inr lst
      else (case generate_single_cycle (last raw) of
              Inl e \<Rightarrow> Inl e
            | Inr second \<Rightarrow> fold_cycles (butlast raw) (mul second lst)))"
  by pat_completeness auto
termination
  by (relation "measure (\<lambda>(raw, lst). length raw)") auto

declare fold_cycles.simps [simp del]

text \<open>
  The first half of the parser: \<^verbatim>\<open>string[1:-1].split(")(")\<close> and the loop, which give
  the list \<^verbatim>\<open>cycles\<close> of the non-empty cycles of the text.
\<close>

definition parse_cycles :: "string \<Rightarrow> error + int list list" where
  "parse_cycles string = read_cycles (str_split '')('' (butlast (tl string)))"

definition Cycle_parse :: "string \<Rightarrow> error + Cycle" where
  "Cycle_parse string =
     (case parse_cycles string of
        Inl e \<Rightarrow> Inl e
      | Inr cycles \<Rightarrow>
          if cycles = [] then Inr (new_Cycle None 0)
          else (case generate_single_cycle (last cycles) of
                  Inl e \<Rightarrow> Inl e
                | Inr lst \<Rightarrow> fold_cycles (butlast cycles) lst))"

subsection \<open>\<^verbatim>\<open>_create_representation\<close>\<close>

text \<open>
  The inner loop. \<^verbatim>\<open>to_check.remove(current)\<close> raises \<^verbatim>\<open>ValueError\<close> when \<open>current\<close>
  is not in the list; otherwise the list gets shorter, which is why the loop ends.
  Its result is the pair of \<^verbatim>\<open>to_check\<close> and \<^verbatim>\<open>cycles\<close> when \<^verbatim>\<open>looping\<close> becomes false.
\<close>

lemma length_remove1_less: "x \<in> set xs \<Longrightarrow> length (remove1 x xs) < length xs"
  by (induction xs) auto

function inner_loop :: "Cycle \<Rightarrow> int list \<Rightarrow> int list \<Rightarrow> int \<Rightarrow> int list list
    \<Rightarrow> error + (int list \<times> int list list)" where
  "inner_loop self to_check cycle current cycles =
     (if current \<notin> set to_check then Inl ValueError
      else
        (let to_check' = remove1 current to_check;
             cycle' = cycle @ [current];
             nxt = call self current
         in if nxt \<in> set cycle'
            then Inr (to_check', if length cycle' > 1 then cycles @ [cycle'] else cycles)
            else inner_loop self to_check' cycle' nxt cycles))"
  by pat_completeness auto
termination
  by (relation "measure (\<lambda>(self, to_check, cycle, current, cycles). length to_check)")
     (auto simp: length_remove1_less)

declare inner_loop.simps [simp del]

lemma inner_loop_shorter:
  "inner_loop self to_check cycle current cycles = Inr (to_check', cycles')
     \<Longrightarrow> length to_check' < length to_check"
proof (induction self to_check cycle current cycles rule: inner_loop.induct)
  case (1 self to_check cycle current cycles)
  show ?case
  proof (cases "current \<in> set to_check")
    case False
    with "1.prems" show ?thesis by (simp add: inner_loop.simps)
  next
    case mem: True
    then have less: "length (remove1 current to_check) < length to_check"
      by (rule length_remove1_less)
    show ?thesis
    proof (cases "call self current \<in> set (cycle @ [current])")
      case True
      with mem "1.prems" less show ?thesis
        by (simp add: inner_loop.simps [of self to_check] Let_def)
    next
      case False
      with mem "1.prems"
      have "inner_loop self (remove1 current to_check) (cycle @ [current]) (call self current) cycles
              = Inr (to_check', cycles')"
        by (simp add: inner_loop.simps [of self to_check] Let_def)
      with "1.IH" [OF _ refl refl refl False] mem less show ?thesis
        by fastforce
    qed
  qed
qed

text \<open>The outer loop \<^verbatim>\<open>while to_check:\<close> with \<^verbatim>\<open>current = to_check[0]\<close>.\<close>

function (sequential) outer_loop :: "Cycle \<Rightarrow> int list \<Rightarrow> int list list \<Rightarrow> error + int list list" where
  "outer_loop self [] cycles = Inr cycles"
| "outer_loop self (current # rest) cycles =
     (case inner_loop self (current # rest) [] current cycles of
        Inl e \<Rightarrow> Inl e
      | Inr (to_check', cycles') \<Rightarrow> outer_loop self to_check' cycles')"
  by pat_completeness auto
termination
  by (relation "measure (\<lambda>(self, to_check, cycles). length to_check)")
     (auto dest: inner_loop_shorter)

declare outer_loop.simps [simp del]

definition create_representation :: "Cycle \<Rightarrow> error + int list list" where
  "create_representation self = outer_loop self [1..get_dimension self] []"

subsection \<open>\<^verbatim>\<open>_prettify\<close>, \<^verbatim>\<open>__repr__\<close> and \<^verbatim>\<open>decompose\<close>\<close>

definition prettify :: "int list list \<Rightarrow> string" where
  "prettify representation =
     (let stringified = map (map py_str) representation;
          inner_join = map (str_join '', '') stringified;
          result = ''('' @ str_join '')('' inner_join @ '')''
      in if result = ''()'' then ''(1)'' else result)"

definition repr :: "Cycle \<Rightarrow> error + string" where
  "repr self =
     (case create_representation self of
        Inl e \<Rightarrow> Inl e
      | Inr cycles \<Rightarrow> Inr (prettify cycles))"

text \<open>
  \<^verbatim>\<open>[[cycle[0], cycle[i]] for i in range(len(cycle)-1, 0, -1)]\<close>: the range is empty for
  a cycle of fewer than two elements, so \<^verbatim>\<open>cycle[0]\<close> is only read where it exists.
\<close>

definition transpositions :: "int list \<Rightarrow> int list list" where
  "transpositions cycle = map (\<lambda>i. [cycle ! 0, cycle ! i]) (rev [1..<length cycle])"

fun decompose_loop :: "int list list \<Rightarrow> int list list \<Rightarrow> int list list" where
  "decompose_loop [] representation = representation"
| "decompose_loop (cycle # cycles) representation =
     decompose_loop cycles (representation @ transpositions cycle)"

definition decompose :: "Cycle \<Rightarrow> error + string" where
  "decompose self =
     (case create_representation self of
        Inl e \<Rightarrow> Inl e
      | Inr cycles \<Rightarrow> Inr (prettify (decompose_loop cycles [])))"

section \<open>Notions of the specification\<close>

text \<open>
  The central invariant of the data model: no key of the stored mapping is stored
  with itself as its image.
\<close>

definition sparse :: "Cycle \<Rightarrow> bool" where
  "sparse self = (\<forall>k \<in> set (map fst (cmap self)). map_of (cmap self) k \<noteq> Some k)"

text \<open>
  The product the specification describes for the parser: the cycles in the order of
  the text, the left one always the outer function, \<open>b\<^sub>1 * (b\<^sub>2 * (\<dots> * b\<^sub>k))\<close>, and the
  identity of dimension 0 when there is none.
\<close>

fun compose_right :: "Cycle list \<Rightarrow> Cycle" where
  "compose_right [] = new_Cycle None 0"
| "compose_right [b] = b"
| "compose_right (b # c # bs) = mul b (compose_right (c # bs))"

text \<open>Balanced parentheses, read from left to right with the nesting depth.\<close>

fun balanced_from :: "nat \<Rightarrow> string \<Rightarrow> bool" where
  "balanced_from depth [] = (depth = 0)"
| "balanced_from depth (c # cs) =
     (if c = CHR ''('' then balanced_from (Suc depth) cs
      else if c = CHR '')'' then 0 < depth \<and> balanced_from (depth - 1) cs
      else balanced_from depth cs)"

definition balanced :: "string \<Rightarrow> bool" where
  "balanced s = balanced_from 0 s"

text \<open>
  The invariant of the data model: the keys are unique and lie in \<open>{1..dimension}\<close>, no
  entry is a fixed point, and the stored mapping is a bijection of its set of keys onto
  itself, so that with the identity elsewhere it is a bijection of \<open>{1..dimension}\<close>.
\<close>

definition valid_perm :: "Cycle \<Rightarrow> bool" where
  "valid_perm self =
     (distinct (map fst (cmap self)) \<and>
      distinct (map snd (cmap self)) \<and>
      set (map snd (cmap self)) = set (map fst (cmap self)) \<and>
      (\<forall>(k, v) \<in> set (cmap self). k \<noteq> v \<and> 1 \<le> k \<and> k \<le> cdim self))"

text \<open>
  The texts of the round trip. A text of disjoint cycles is the rendering
  \<open>prettify cs\<close> of a list \<open>cs\<close> of cycles; the specification asks for at least one
  cycle, no cycle of fewer than two elements, positive elements none of which occurs
  twice, and first elements in strictly ascending order.
\<close>

definition well_formed_cycles :: "int list list \<Rightarrow> bool" where
  "well_formed_cycles cs =
     (cs \<noteq> [] \<and>
      (\<forall>c \<in> set cs. 2 \<le> length c) \<and>
      distinct (concat cs) \<and>
      (\<forall>x \<in> set (concat cs). 1 \<le> x) \<and>
      sorted_wrt (<) (map hd cs))"

text \<open>What the printed form has on top of that: every cycle starts at its least element.\<close>

definition smallest_first :: "int list list \<Rightarrow> bool" where
  "smallest_first cs = (\<forall>c \<in> set cs. \<forall>x \<in> set c. hd c \<le> x)"

text \<open>
  An object follows a cycle when it sends each element of the cycle to the next one,
  and the last element to the first.
\<close>

definition follows :: "Cycle \<Rightarrow> int list \<Rightarrow> bool" where
  "follows self c =
     (\<forall>pre x post. c = pre @ x # post \<longrightarrow> call self x = hd (post @ [hd c]))"

text \<open>The characters of \<^verbatim>\<open>str(x)\<close> for an integer \<open>x\<close>.\<close>

definition int_char :: "char \<Rightarrow> bool" where
  "int_char c = (is_digit c \<or> c = CHR ''-'')"

section \<open>Lookups after the loops\<close>

lemma map_of_pop_fixed:
  "map_of (pop_fixed keys m) k =
     (if k \<in> set keys \<and> map_of m k = Some k then None else map_of m k)"
  by (induction keys arbitrary: m) (auto simp: AList.delete_conv')

lemma call_new_Cycle:
  "call (new_Cycle (Some m) d) x = (case map_of m x of None \<Rightarrow> x | Some w \<Rightarrow> w)"
  by (simp add: call_def new_Cycle_def Cycle_init_def Let_def map_of_pop_fixed)

lemma cdim_new_Cycle: "cdim (new_Cycle mapping d) = d"
  by (simp add: new_Cycle_def Cycle_init_def Let_def split: option.splits)

lemma map_of_mul_loop:
  "map_of (mul_loop a b xs acc) k =
     (if k \<in> set xs then Some (call a (call b k)) else map_of acc k)"
  by (induction xs arbitrary: acc) (auto simp: AList.update_conv')

section \<open>Composition\<close>

text \<open>
  Claim C1. For all objects \<open>a\<close> and \<open>b\<close>, the product \<open>a * b\<close> has the larger of the two
  dimensions as its dimension, and on every \<open>x\<close> from 1 to that dimension it gives
  \<open>a(b(x))\<close>.
\<close>

theorem mul_applies_right_then_left:
  "get_dimension (mul a b) = max (get_dimension a) (get_dimension b) \<and>
   (\<forall>x \<in> {1 .. max (get_dimension a) (get_dimension b)}.
      call (mul a b) x = call a (call b x))"
  by (simp add: mul_def Let_def get_dimension_def cdim_new_Cycle call_new_Cycle map_of_mul_loop)

theorem mul_applies_right_then_left_witness:
  "get_dimension (mul \<lparr>cmap = [(1, 4), (4, 3), (3, 2), (2, 1)], cdim = 4\<rparr>
                      \<lparr>cmap = [(1, 2), (2, 1)], cdim = 2\<rparr>) = 4 \<and>
   (2::int) \<in> {1 .. 4} \<and>
   call (mul \<lparr>cmap = [(1, 4), (4, 3), (3, 2), (2, 1)], cdim = 4\<rparr>
             \<lparr>cmap = [(1, 2), (2, 1)], cdim = 2\<rparr>) 2 = 4"
  using mul_applies_right_then_left
    [of "\<lparr>cmap = [(1, 4), (4, 3), (3, 2), (2, 1)], cdim = 4\<rparr>"
        "\<lparr>cmap = [(1, 2), (2, 1)], cdim = 2\<rparr>"]
  by (simp add: get_dimension_def call_def)

section \<open>The single cycle \<^verbatim>\<open>[2, 3, 1]\<close>\<close>

text \<open>
  Claim C3, as the code has it. \<^verbatim>\<open>generate_single_cycle([2, 3, 1])\<close> has the stored
  mapping \<^verbatim>\<open>{2: 3, 3: 1, 1: 2}\<close> and the dimension 3, and it is printed as
  \<^verbatim>\<open>(1, 2, 3)\<close>: the printed cycle starts at the smallest element, since the outer
  loop of \<^verbatim>\<open>_create_representation\<close> starts each cycle at the first element of
  \<^verbatim>\<open>to_check\<close>.
\<close>

theorem single_cycle_231_printed_from_smallest:
  "generate_single_cycle [2, 3, 1] = Inr \<lparr>cmap = [(2, 3), (3, 1), (1, 2)], cdim = 3\<rparr> \<and>
   repr \<lparr>cmap = [(2, 3), (3, 1), (1, 2)], cdim = 3\<rparr> = Inr ''(1, 2, 3)''"
  by code_simp

text \<open>
  The claim as the specification states it expects the text \<^verbatim>\<open>(2, 3, 1)\<close>, which is not
  what \<^verbatim>\<open>__repr__\<close> returns.
\<close>

theorem single_cycle_231_not_printed_as_listed:
  "generate_single_cycle [2, 3, 1] = Inr \<lparr>cmap = [(2, 3), (3, 1), (1, 2)], cdim = 3\<rparr> \<and>
   repr \<lparr>cmap = [(2, 3), (3, 1), (1, 2)], cdim = 3\<rparr> \<noteq> Inr ''(2, 3, 1)''"
  by code_simp

section \<open>The constructor and its argument\<close>

text \<open>
  Claim C9 at a dictionary with a fixed entry. After \<^verbatim>\<open>Cycle(d, 3)\<close> with
  \<^verbatim>\<open>d = {1: 1, 2: 3, 3: 2}\<close> the caller's dictionary \<open>d\<close> has lost its entry for 1.
\<close>

theorem init_pops_from_the_callers_dictionary:
  "Cycle_init (Some [(1, 1), (2, 3), (3, 2)]) 3 =
     (Some [(2, 3), (3, 2)], \<lparr>cmap = [(2, 3), (3, 2)], cdim = 3\<rparr>)"
  by code_simp

section \<open>The sparse mapping\<close>

lemma sparse_new_Cycle: "sparse (new_Cycle mapping d)"
  by (cases mapping)
     (force simp: sparse_def new_Cycle_def Cycle_init_def Let_def map_of_pop_fixed
            dest: map_of_SomeD)+

lemma sparse_mul: "sparse (mul a b)"
  by (simp add: mul_def Let_def sparse_new_Cycle)

lemma sparse_inverse: "sparse (inverse a)"
  by (simp add: inverse_def sparse_new_Cycle)

lemma sparse_generate_single_cycle: "generate_single_cycle xs = Inr c \<Longrightarrow> sparse c"
  by (auto simp: generate_single_cycle_def sparse_new_Cycle split: sum.splits)

lemma sparse_fold_cycles: "fold_cycles raw lst = Inr c \<Longrightarrow> sparse lst \<Longrightarrow> sparse c"
proof (induction raw lst rule: fold_cycles.induct)
  case (1 raw lst)
  show ?case
  proof (cases "raw = []")
    case True
    with "1.prems" show ?thesis by (simp add: fold_cycles.simps)
  next
    case False
    with "1.prems" obtain second where
      second: "generate_single_cycle (last raw) = Inr second" and
      rest: "fold_cycles (butlast raw) (mul second lst) = Inr c"
      by (auto simp: fold_cycles.simps [of raw] split: sum.splits)
    from "1.IH" [OF False second rest] show ?thesis
      by (simp add: sparse_mul)
  qed
qed

lemma sparse_Cycle_parse: "Cycle_parse s = Inr c \<Longrightarrow> sparse c"
  by (auto simp: Cycle_parse_def sparse_new_Cycle
           split: sum.splits if_splits
           dest: sparse_fold_cycles sparse_generate_single_cycle)

text \<open>
  Claim C2. Whatever the constructor, the single-cycle builder, the parser, the product
  and the inverse return, its stored mapping has no key whose image is the key itself.
\<close>

theorem no_fixed_entry_is_stored:
  "sparse (snd (Cycle_init mapping d)) \<and>
   (\<forall>c. generate_single_cycle xs = Inr c \<longrightarrow> sparse c) \<and>
   (\<forall>c. Cycle_parse s = Inr c \<longrightarrow> sparse c) \<and>
   sparse (mul a b) \<and>
   sparse (inverse a)"
  using sparse_new_Cycle [of mapping d]
  by (auto simp: new_Cycle_def sparse_mul sparse_inverse
           dest: sparse_generate_single_cycle sparse_Cycle_parse)

theorem no_fixed_entry_is_stored_witness:
  "sparse (snd (Cycle_init (Some [(1, 1), (2, 3), (3, 2)]) 3)) \<and>
   generate_single_cycle [5] = Inr \<lparr>cmap = [], cdim = 5\<rparr> \<and>
   sparse \<lparr>cmap = [], cdim = 5\<rparr> \<and>
   Cycle_parse ''(1, 2)(2, 3)'' = Inr \<lparr>cmap = [(1, 2), (2, 3), (3, 1)], cdim = 3\<rparr> \<and>
   sparse \<lparr>cmap = [(1, 2), (2, 3), (3, 1)], cdim = 3\<rparr> \<and>
   sparse (mul \<lparr>cmap = [(1, 2), (2, 1)], cdim = 2\<rparr> \<lparr>cmap = [(1, 2), (2, 1)], cdim = 2\<rparr>) \<and>
   sparse (inverse \<lparr>cmap = [(1, 2), (2, 1)], cdim = 2\<rparr>)"
proof -
  have g: "generate_single_cycle [5] = Inr \<lparr>cmap = [], cdim = 5\<rparr>"
    by code_simp
  have p: "Cycle_parse ''(1, 2)(2, 3)'' = Inr \<lparr>cmap = [(1, 2), (2, 3), (3, 1)], cdim = 3\<rparr>"
    by code_simp
  from no_fixed_entry_is_stored
    [of "Some [(1, 1), (2, 3), (3, 2)]" 3 "[5]" "''(1, 2)(2, 3)''"
        "\<lparr>cmap = [(1, 2), (2, 1)], cdim = 2\<rparr>" "\<lparr>cmap = [(1, 2), (2, 1)], cdim = 2\<rparr>"]
  show ?thesis using g p by simp
qed

section \<open>The parser folds the cycles from the right\<close>

lemma ints_of_length: "ints_of toks = Inr c \<Longrightarrow> length c = length toks"
  by (induction toks arbitrary: c) (auto split: sum.splits)

lemma read_cycles_nonempty: "read_cycles pieces = Inr cs \<Longrightarrow> [] \<notin> set cs"
proof (induction pieces arbitrary: cs)
  case Nil then show ?case by simp
next
  case (Cons p ps)
  then show ?case
    by (auto simp: Let_def split: if_splits sum.splits dest: ints_of_length)
qed

lemma generate_single_cycle_nonempty:
  "c \<noteq> [] \<Longrightarrow> \<exists>b. generate_single_cycle c = Inr b"
  by (cases c) (simp_all add: generate_single_cycle_def py_max_def)

lemma builds_exist:
  "[] \<notin> set cs \<Longrightarrow> \<exists>bs. list_all2 (\<lambda>c b. generate_single_cycle c = Inr b) cs bs"
proof (induction cs)
  case Nil then show ?case by simp
next
  case (Cons c cs)
  then obtain bs where "list_all2 (\<lambda>c b. generate_single_cycle c = Inr b) cs bs" by auto
  moreover from Cons.prems obtain b where "generate_single_cycle c = Inr b"
    using generate_single_cycle_nonempty [of c] by auto
  ultimately have "list_all2 (\<lambda>c b. generate_single_cycle c = Inr b) (c # cs) (b # bs)" by simp
  then show ?case by blast
qed

lemma compose_right_snoc:
  "compose_right (bs @ [b, c]) = compose_right (bs @ [mul b c])"
  by (induction bs rule: compose_right.induct) (auto simp: )

lemma fold_cycles_compose_right:
  "list_all2 (\<lambda>c b. generate_single_cycle c = Inr b) raw bs
     \<Longrightarrow> fold_cycles raw lst = Inr (compose_right (bs @ [lst]))"
proof (induction raw lst arbitrary: bs rule: fold_cycles.induct)
  case (1 raw lst)
  show ?case
  proof (cases "raw = []")
    case True
    with "1.prems" show ?thesis by (simp add: fold_cycles.simps)
  next
    case False
    with "1.prems" have bs: "bs \<noteq> []" by auto
    from "1.prems" have len: "length raw = length bs" by (rule list_all2_lengthD)
    from "1.prems" False bs have second: "generate_single_cycle (last raw) = Inr (last bs)"
      by (simp add: list_all2_conv_all_nth last_conv_nth len)
    from "1.prems" have front: "list_all2 (\<lambda>c b. generate_single_cycle c = Inr b) (butlast raw) (butlast bs)"
      by (simp add: list_all2_conv_all_nth nth_butlast)
    from "1.IH" [OF False second front]
    have "fold_cycles (butlast raw) (mul (last bs) lst) = Inr (compose_right (butlast bs @ [mul (last bs) lst]))" .
    also have "compose_right (butlast bs @ [mul (last bs) lst]) = compose_right (butlast bs @ [last bs, lst])"
      by (simp add: compose_right_snoc)
    also have "butlast bs @ [last bs, lst] = bs @ [lst]"
      using bs by (metis append_butlast_last_id append_Cons append_Nil append_assoc)
    finally show ?thesis
      using False second by (simp add: fold_cycles.simps [of raw])
  qed
qed


lemma Cycle_parse_of_cycles:
  assumes cs: "parse_cycles s = Inr cs"
    and bs: "list_all2 (\<lambda>c b. generate_single_cycle c = Inr b) cs bs"
  shows "Cycle_parse s = Inr (compose_right bs)"
proof (cases "cs = []")
  case True
  with bs cs show ?thesis by (simp add: Cycle_parse_def)
next
  case False
  with bs have ne: "bs \<noteq> []" by auto
  from bs have len: "length cs = length bs" by (rule list_all2_lengthD)
  from bs False ne have lst: "generate_single_cycle (last cs) = Inr (last bs)"
    by (simp add: list_all2_conv_all_nth last_conv_nth len)
  from bs have front:
    "list_all2 (\<lambda>c b. generate_single_cycle c = Inr b) (butlast cs) (butlast bs)"
    by (simp add: list_all2_conv_all_nth nth_butlast)
  from fold_cycles_compose_right [OF front, of "last bs"] ne
  have "fold_cycles (butlast cs) (last bs) = Inr (compose_right bs)" by simp
  with cs False lst show ?thesis by (simp add: Cycle_parse_def)
qed

lemma parse_cycles_builds:
  "parse_cycles s = Inr cs
     \<Longrightarrow> \<exists>bs. list_all2 (\<lambda>c b. generate_single_cycle c = Inr b) cs bs"
  by (simp add: parse_cycles_def read_cycles_nonempty builds_exist)

text \<open>
  Claim C5. When the text holds the non-empty cycles \<open>cs\<close>, every one of them is built by
  \<^verbatim>\<open>generate_single_cycle\<close> and the parser returns the product of the built cycles nested
  to the right, the left cycle outermost; with no cycle at all it returns the identity of
  dimension 0.
\<close>

theorem parse_is_right_nested_product:
  "parse_cycles s = Inr cs \<Longrightarrow>
     (\<exists>bs. list_all2 (\<lambda>c b. generate_single_cycle c = Inr b) cs bs \<and>
           Cycle_parse s = Inr (compose_right bs)) \<and>
     (cs = [] \<longrightarrow> Cycle_parse s = Inr \<lparr>cmap = [], cdim = 0\<rparr>)"
proof -
  assume cs: "parse_cycles s = Inr cs"
  from parse_cycles_builds [OF cs] obtain bs
    where bs: "list_all2 (\<lambda>c b. generate_single_cycle c = Inr b) cs bs" ..
  from Cycle_parse_of_cycles [OF cs bs] have p: "Cycle_parse s = Inr (compose_right bs)" .
  have "cs = [] \<longrightarrow> Cycle_parse s = Inr \<lparr>cmap = [], cdim = 0\<rparr>"
    using bs p by (auto simp: new_Cycle_def Cycle_init_def)
  with bs p show ?thesis by blast
qed

theorem parse_is_right_nested_product_witness:
  "parse_cycles ''(1, 2)(2, 3)(4)'' = Inr [[1, 2], [2, 3], [4]] \<and>
   Cycle_parse ''(1, 2)(2, 3)(4)'' =
     Inr (mul \<lparr>cmap = [(1, 2), (2, 1)], cdim = 2\<rparr>
           (mul \<lparr>cmap = [(2, 3), (3, 2)], cdim = 3\<rparr> \<lparr>cmap = [], cdim = 4\<rparr>)) \<and>
   parse_cycles ''()'' = Inr [] \<and>
   Cycle_parse ''()'' = Inr \<lparr>cmap = [], cdim = 0\<rparr>"
proof -
  have c: "parse_cycles ''(1, 2)(2, 3)(4)'' = Inr [[1, 2], [2, 3], [4]]"
    by code_simp
  have g1: "generate_single_cycle [1, 2] = Inr \<lparr>cmap = [(1, 2), (2, 1)], cdim = 2\<rparr>"
    by code_simp
  have g2: "generate_single_cycle [2, 3] = Inr \<lparr>cmap = [(2, 3), (3, 2)], cdim = 3\<rparr>"
    by code_simp
  have g3: "generate_single_cycle [4] = Inr \<lparr>cmap = [], cdim = 4\<rparr>"
    by code_simp
  have e: "parse_cycles ''()'' = Inr []"
    by code_simp
  from parse_is_right_nested_product [OF c] g1 g2 g3
  have "Cycle_parse ''(1, 2)(2, 3)(4)'' =
     Inr (mul \<lparr>cmap = [(1, 2), (2, 1)], cdim = 2\<rparr>
           (mul \<lparr>cmap = [(2, 3), (3, 2)], cdim = 3\<rparr> \<lparr>cmap = [], cdim = 4\<rparr>))"
    by (auto simp: list_all2_Cons1)
  moreover from parse_is_right_nested_product [OF e]
  have "Cycle_parse ''()'' = Inr \<lparr>cmap = [], cdim = 0\<rparr>" by blast
  ultimately show ?thesis using c e by simp
qed

section \<open>Decomposition into transpositions\<close>

lemma decompose_loop_concat:
  "decompose_loop cycles acc = acc @ concat (map transpositions cycles)"
  by (induction cycles arbitrary: acc) auto

lemma transpositions_descending:
  "transpositions c = map (\<lambda>i. [c ! 0, c ! (length c - 1 - i)]) [0..<length c - 1]"
proof (rule nth_equalityI)
  show "length (transpositions c) = length (map (\<lambda>i. [c ! 0, c ! (length c - 1 - i)]) [0..<length c - 1])"
    by (simp add: transpositions_def)
next
  fix i assume "i < length (transpositions c)"
  then have i: "i < length c - 1" by (simp add: transpositions_def)
  then have "Suc (length c - Suc (Suc i)) = length c - Suc i" by arith
  with i show "transpositions c ! i = map (\<lambda>i. [c ! 0, c ! (length c - 1 - i)]) [0..<length c - 1] ! i"
    by (simp add: transpositions_def rev_nth)
qed

text \<open>
  Claim C8. \<^verbatim>\<open>decompose\<close> renders, with \<^verbatim>\<open>_prettify\<close>, for each extracted cycle
  \<open>[c\<^sub>0, \<dots>, c\<^sub>k\<^sub>-\<^sub>1]\<close> the \<open>k - 1\<close> pairs \<open>(c\<^sub>0, c\<^sub>k\<^sub>-\<^sub>1), (c\<^sub>0, c\<^sub>k\<^sub>-\<^sub>2), \<dots>, (c\<^sub>0, c\<^sub>1)\<close> in this order,
  and it fails exactly when the extraction fails. For the text \<^verbatim>\<open>(1, 2, 3)\<close> the result is
  \<^verbatim>\<open>(1, 3)(1, 2)\<close>.
\<close>

theorem decompose_first_with_each_later_descending:
  "decompose self =
     (case create_representation self of
        Inl e \<Rightarrow> Inl e
      | Inr cycles \<Rightarrow>
          Inr (prettify (concat (map (\<lambda>c. map (\<lambda>i. [c ! 0, c ! (length c - 1 - i)])
                                              [0..<length c - 1]) cycles)))) \<and>
   Cycle_parse ''(1, 2, 3)'' = Inr \<lparr>cmap = [(1, 2), (2, 3), (3, 1)], cdim = 3\<rparr> \<and>
   decompose \<lparr>cmap = [(1, 2), (2, 3), (3, 1)], cdim = 3\<rparr> = Inr ''(1, 3)(1, 2)''"
proof -
  have eq: "transpositions = (\<lambda>c. map (\<lambda>i. [c ! 0, c ! (length c - 1 - i)]) [0..<length c - 1])"
    by (rule ext) (rule transpositions_descending)
  have "decompose self =
     (case create_representation self of
        Inl e \<Rightarrow> Inl e
      | Inr cycles \<Rightarrow>
          Inr (prettify (concat (map (\<lambda>c. map (\<lambda>i. [c ! 0, c ! (length c - 1 - i)])
                                              [0..<length c - 1]) cycles))))"
    unfolding decompose_def decompose_loop_concat eq append_Nil by (rule refl)
  moreover have "Cycle_parse ''(1, 2, 3)'' = Inr \<lparr>cmap = [(1, 2), (2, 3), (3, 1)], cdim = 3\<rparr>"
    by code_simp
  moreover have "decompose \<lparr>cmap = [(1, 2), (2, 3), (3, 1)], cdim = 3\<rparr> = Inr ''(1, 3)(1, 2)''"
    by code_simp
  ultimately show ?thesis by blast
qed

section \<open>When the parser fails\<close>

lemma ints_of_fails_iff:
  "(\<exists>e. ints_of toks = Inl e) \<longleftrightarrow> (\<exists>tok \<in> set toks. py_int tok = Inl ValueError)"
proof (induction toks)
  case Nil then show ?case by simp
next
  case (Cons t ts)
  show ?case
  proof (cases "py_int t")
    case (Inl e)
    then show ?thesis by (cases e) auto
  next
    case (Inr v)
    with Cons show ?thesis by (auto split: sum.splits)
  qed
qed

lemma read_cycles_fails_iff:
  "(\<exists>e. read_cycles pieces = Inl e) \<longleftrightarrow>
     (\<exists>piece \<in> set pieces. \<exists>tok \<in> set (tokens_of piece). py_int tok = Inl ValueError)"
proof (induction pieces)
  case Nil then show ?case by simp
next
  case (Cons p ps)
  show ?case
  proof (cases "tokens_of p = []")
    case True
    with Cons show ?thesis by simp
  next
    case ne: False
    show ?thesis
    proof (cases "ints_of (tokens_of p)")
      case (Inl e)
      with ints_of_fails_iff [of "tokens_of p"] ne show ?thesis by auto
    next
      case (Inr c)
      with ints_of_fails_iff [of "tokens_of p"]
      have "\<not> (\<exists>tok \<in> set (tokens_of p). py_int tok = Inl ValueError)" by simp
      with Cons Inr ne show ?thesis by (auto simp: Let_def split: sum.splits)
    qed
  qed
qed

lemma Cycle_parse_fails_iff: "(\<exists>e. Cycle_parse s = Inl e) \<longleftrightarrow> (\<exists>e. parse_cycles s = Inl e)"
proof (cases "parse_cycles s")
  case (Inl e)
  then show ?thesis by (simp add: Cycle_parse_def)
next
  case (Inr cs)
  from parse_cycles_builds [OF Inr] obtain bs
    where "list_all2 (\<lambda>c b. generate_single_cycle c = Inr b) cs bs" ..
  from Cycle_parse_of_cycles [OF Inr this] Inr show ?thesis by simp
qed

text \<open>
  Claim C6, as the code has it. The parser fails, with \<^verbatim>\<open>ValueError\<close>, exactly when one
  of the tokens is not an integer literal, where the tokens are the non-blank trimmed
  parts between commas of the pieces that \<^verbatim>\<open>string[1:-1].split(")(")\<close> gives. The
  parentheses themselves are never checked.
\<close>

theorem parse_fails_iff_some_token_is_no_integer:
  "(\<exists>e. Cycle_parse s = Inl e) \<longleftrightarrow>
     (\<exists>piece \<in> set (str_split '')('' (butlast (tl s))).
        \<exists>tok \<in> set (tokens_of piece). py_int tok = Inl ValueError)"
  by (simp add: Cycle_parse_fails_iff parse_cycles_def read_cycles_fails_iff)

theorem parse_fails_iff_some_token_is_no_integer_witness:
  "Cycle_parse ''(1, x)'' = Inl ValueError \<and>
   ''1, x'' \<in> set (str_split '')('' (butlast (tl ''(1, x)''))) \<and>
   ''x'' \<in> set (tokens_of ''1, x'') \<and> py_int ''x'' = Inl ValueError"
proof -
  have a: "''1, x'' \<in> set (str_split '')('' (butlast (tl ''(1, x)'')))" by code_simp
  have b: "''x'' \<in> set (tokens_of ''1, x'')" by code_simp
  have c: "py_int ''x'' = Inl ValueError" by code_simp
  from a b c have "\<exists>piece \<in> set (str_split '')('' (butlast (tl ''(1, x)''))).
        \<exists>tok \<in> set (tokens_of piece). py_int tok = Inl ValueError" by blast
  with parse_fails_iff_some_token_is_no_integer [of "''(1, x)''"]
  obtain e where "Cycle_parse ''(1, x)'' = Inl e" by blast
  then have "Cycle_parse ''(1, x)'' = Inl ValueError" by (cases e) simp
  with a b c show ?thesis by simp
qed

text \<open>
  The claim as the specification states it also expects a failure for unbalanced
  parentheses. The text \<^verbatim>\<open>(1, 2)(3\<close> is unbalanced and is parsed as the transposition of
  1 and 2.
\<close>

theorem unbalanced_text_is_parsed:
  "\<not> balanced ''(1, 2)(3'' \<and>
   Cycle_parse ''(1, 2)(3'' = Inr \<lparr>cmap = [(1, 2), (2, 1)], cdim = 2\<rparr>"
  by code_simp

section \<open>A permutation times its inverse\<close>

lemma map_of_swap_items:
  "map_of (swap_items items acc) x =
     (case map_of (rev (map (\<lambda>(k, v). (v, k)) items)) x of
        None \<Rightarrow> map_of acc x
      | Some k \<Rightarrow> Some k)"
proof (induction items arbitrary: acc)
  case Nil
  then show ?case by simp
next
  case (Cons kv items)
  obtain k v where kv: "kv = (k, v)" by (cases kv)
  show ?case
    by (simp add: kv Cons.IH AList.update_conv' map_add_def split: option.splits)
qed

lemma call_inverse:
  "call (inverse a) x =
     (case map_of (rev (map (\<lambda>(k, v). (v, k)) (cmap a))) x of None \<Rightarrow> x | Some k \<Rightarrow> k)"
  by (simp add: inverse_def call_new_Cycle map_of_swap_items split: option.splits)

lemma call_key: "distinct (map fst (cmap a)) \<Longrightarrow> (k, v) \<in> set (cmap a) \<Longrightarrow> call a k = v"
  by (simp add: call_def)

lemma call_no_key: "x \<notin> fst ` set (cmap a) \<Longrightarrow> call a x = x"
  by (simp add: call_def map_of_eq_None_iff [THEN iffD2])

lemma call_inverse_value:
  assumes "distinct (map snd (cmap a))" and "(k, v) \<in> set (cmap a)"
  shows "call (inverse a) v = k"
proof -
  have "map fst (rev (map (\<lambda>(k, v). (v, k)) (cmap a))) = rev (map snd (cmap a))"
    by (simp add: rev_map case_prod_unfold)
  with assms(1) have "distinct (map fst (rev (map (\<lambda>(k, v). (v, k)) (cmap a))))"
    by simp
  moreover from assms(2) have "(v, k) \<in> set (rev (map (\<lambda>(k, v). (v, k)) (cmap a)))"
    by force
  ultimately have "map_of (rev (map (\<lambda>(k, v). (v, k)) (cmap a))) v = Some k"
    by (rule map_of_is_SomeI)
  then show ?thesis by (simp add: call_inverse)
qed

lemma call_inverse_no_value:
  assumes "x \<notin> snd ` set (cmap a)"
  shows "call (inverse a) x = x"
proof -
  have "fst ` set (rev (map (\<lambda>(k, v). (v, k)) (cmap a))) = snd ` set (cmap a)"
    by force
  with assms have "map_of (rev (map (\<lambda>(k, v). (v, k)) (cmap a))) x = None"
    by (simp add: map_of_eq_None_iff)
  then show ?thesis by (simp add: call_inverse)
qed

lemma call_call_inverse:
  assumes "valid_perm a"
  shows "call a (call (inverse a) x) = x"
proof (cases "x \<in> snd ` set (cmap a)")
  case True
  then obtain k where kx: "(k, x) \<in> set (cmap a)" by force
  with assms have "call (inverse a) x = k"
    by (simp add: valid_perm_def call_inverse_value)
  moreover from assms kx have "call a k = x"
    by (simp add: valid_perm_def call_key)
  ultimately show ?thesis by simp
next
  case False
  then have "call (inverse a) x = x" by (rule call_inverse_no_value)
  moreover from False assms have "x \<notin> fst ` set (cmap a)"
    by (simp add: valid_perm_def)
  then have "call a x = x" by (rule call_no_key)
  ultimately show ?thesis by simp
qed

lemma pop_fixed_all:
  assumes "\<And>k. k \<in> fst ` set m \<Longrightarrow> map_of m k = Some k"
  shows "pop_fixed (map fst m) m = []"
proof -
  have "map_of (pop_fixed (map fst m) m) k = None" for k
  proof (cases "k \<in> fst ` set m")
    case True
    with assms show ?thesis by (simp add: map_of_pop_fixed)
  next
    case False
    then show ?thesis by (simp add: map_of_pop_fixed map_of_eq_None_iff)
  qed
  then have "map_of (pop_fixed (map fst m) m) = Map.empty" by (rule ext)
  then show ?thesis by (simp only: map_of_eq_empty_iff)
qed

lemma cmap_mul_identity:
  assumes "\<And>x. call a (call b x) = x"
  shows "cmap (mul a b) = []"
proof -
  let ?d = "max (get_dimension a) (get_dimension b)"
  let ?m = "mul_loop a b [1..?d] []"
  have "map_of ?m k = Some k" if "k \<in> fst ` set ?m" for k
  proof -
    from that have "map_of ?m k \<noteq> None" by (simp add: map_of_eq_None_iff)
    then show ?thesis by (simp add: map_of_mul_loop assms split: if_splits)
  qed
  then have "pop_fixed (map fst ?m) ?m = []" by (rule pop_fixed_all)
  then show ?thesis
    by (simp add: mul_def Let_def new_Cycle_def Cycle_init_def)
qed

lemma inner_loop_fixed:
  "call self x = x \<Longrightarrow> inner_loop self (x # rest) [] x cycles = Inr (rest, cycles)"
  by (simp add: inner_loop.simps [of self "x # rest"])

lemma outer_loop_identity:
  "(\<And>x. x \<in> set xs \<Longrightarrow> call self x = x) \<Longrightarrow> outer_loop self xs cycles = Inr cycles"
  by (induction xs) (simp_all add: outer_loop.simps inner_loop_fixed)

lemma repr_empty_map: "cmap self = [] \<Longrightarrow> repr self = Inr ''(1)''"
proof -
  assume e: "cmap self = []"
  then have "call self x = x" for x by (simp add: call_def)
  then have "create_representation self = Inr []"
    by (simp add: create_representation_def outer_loop_identity)
  moreover have "prettify [] = ''(1)''" by (simp add: prettify_def)
  ultimately show ?thesis by (simp add: repr_def)
qed

text \<open>
  Claim C7. For every permutation \<open>a\<close> of the data model, \<open>a * a.inverse()\<close> stores the
  empty mapping and is printed as \<^verbatim>\<open>(1)\<close>.
\<close>

theorem mul_inverse_is_identity:
  "valid_perm a \<Longrightarrow>
     cmap (mul a (inverse a)) = [] \<and> repr (mul a (inverse a)) = Inr ''(1)''"
  by (simp add: cmap_mul_identity call_call_inverse repr_empty_map)

theorem mul_inverse_is_identity_witness:
  "valid_perm \<lparr>cmap = [(1, 2), (2, 3), (3, 1)], cdim = 4\<rparr> \<and>
   cmap (mul \<lparr>cmap = [(1, 2), (2, 3), (3, 1)], cdim = 4\<rparr>
             (inverse \<lparr>cmap = [(1, 2), (2, 3), (3, 1)], cdim = 4\<rparr>)) = [] \<and>
   repr (mul \<lparr>cmap = [(1, 2), (2, 3), (3, 1)], cdim = 4\<rparr>
             (inverse \<lparr>cmap = [(1, 2), (2, 3), (3, 1)], cdim = 4\<rparr>)) = Inr ''(1)''"
proof -
  have v: "valid_perm \<lparr>cmap = [(1, 2), (2, 3), (3, 1)], cdim = 4\<rparr>"
    by (auto simp: valid_perm_def)
  from mul_inverse_is_identity [OF v] v show ?thesis by simp
qed

section \<open>The extraction of the cycles returns\<close>

text \<open>
  Both loops of \<^verbatim>\<open>_create_representation\<close> end on every object: each pass of the inner loop
  either raises or takes an element out of \<^verbatim>\<open>to_check\<close>, which is what the termination
  proofs of \<open>inner_loop\<close> and \<open>outer_loop\<close> use. What is left to show is that on a
  permutation of the data model no pass raises. The inner loop keeps this invariant:
  the elements visited so far are not in \<^verbatim>\<open>to_check\<close> any more, each of them but the first
  is the image of a visited one, and the images of \<^verbatim>\<open>to_check\<close> lie in \<^verbatim>\<open>to_check\<close> or are
  the first element of the cycle.
\<close>

lemma inner_loop_returns:
  assumes "distinct to_check"
    and "current \<in> set to_check"
    and "set cycle \<inter> set to_check = {}"
    and "inj_on (call self) (set to_check \<union> set cycle)"
    and "set (tl (cycle @ [current])) \<subseteq> call self ` set cycle"
    and "call self ` set to_check \<subseteq> set to_check \<union> {hd (cycle @ [current])}"
  shows "\<exists>to_check' cycles'.
           inner_loop self to_check cycle current cycles = Inr (to_check', cycles') \<and>
           distinct to_check' \<and> set to_check' \<subseteq> set to_check \<and>
           call self ` set to_check' \<subseteq> set to_check'"
  using assms
proof (induction self to_check cycle current cycles rule: inner_loop.induct)
  case (1 self to_check cycle current cycles)
  let ?f = "call self"
  let ?T' = "remove1 current to_check"
  let ?c' = "cycle @ [current]"
  note dist = "1.prems"(1) and mem = "1.prems"(2) and disj = "1.prems"(3)
    and inj = "1.prems"(4) and chain = "1.prems"(5) and closed = "1.prems"(6)
  have setT': "set ?T' = set to_check - {current}"
    using dist by simp
  have hd_c': "hd ?c' \<in> set ?c'" by (cases cycle) simp_all
  have not_current: "?f x \<noteq> current" if x: "x \<in> set ?T'" and ne: "cycle \<noteq> []" for x
  proof
    assume eq: "?f x = current"
    from ne have "current \<in> set (tl ?c')" by (cases cycle) simp_all
    with chain obtain y where y: "y \<in> set cycle" and fy: "current = ?f y" by auto
    from x setT' have xT: "x \<in> set to_check" by simp
    from inj xT y eq fy have "x = y" by (auto dest: inj_onD)
    with xT y disj show False by auto
  qed
  have closed': "?f ` set ?T' \<subseteq> set ?T' \<union> {hd ?c'}"
  proof
    fix z assume "z \<in> ?f ` set ?T'"
    then obtain x where x: "x \<in> set ?T'" and z: "z = ?f x" by auto
    from x setT' closed z have zin: "z \<in> set to_check \<union> {hd ?c'}" by auto
    show "z \<in> set ?T' \<union> {hd ?c'}"
    proof (cases "cycle = []")
      case True
      with zin setT' show ?thesis by auto
    next
      case False
      from not_current [OF x False] z have "z \<noteq> current" by simp
      with zin setT' show ?thesis by auto
    qed
  qed
  show ?case
  proof (cases "?f current \<in> set ?c'")
    case True
    have nxt: "?f current = hd ?c'"
    proof (rule ccontr)
      assume "?f current \<noteq> hd ?c'"
      with True have "?f current \<in> set (tl ?c')"
        by (cases ?c') auto
      with chain obtain y where y: "y \<in> set cycle" and fy: "?f current = ?f y" by auto
      from inj mem y fy have "current = y" by (auto dest: inj_onD)
      with mem y disj show False by auto
    qed
    have "?f ` set ?T' \<subseteq> set ?T'"
    proof
      fix z assume "z \<in> ?f ` set ?T'"
      then obtain x where x: "x \<in> set ?T'" and z: "z = ?f x" by auto
      from x setT' have xT: "x \<in> set to_check" and xc: "x \<noteq> current" by auto
      have "z \<noteq> hd ?c'"
      proof
        assume "z = hd ?c'"
        with z nxt have "?f x = ?f current" by simp
        with inj xT mem have "x = current" by (auto dest: inj_onD)
        with xc show False by simp
      qed
      with closed' x z show "z \<in> set ?T'" by auto
    qed
    moreover from mem True
    have "inner_loop self to_check cycle current cycles =
            Inr (?T', if length ?c' > 1 then cycles @ [?c'] else cycles)"
      by (simp add: inner_loop.simps [of self to_check] Let_def)
    ultimately show ?thesis
      using dist setT' by auto
  next
    case False
    have nxtT: "?f current \<in> set ?T'"
    proof -
      from closed mem have "?f current \<in> set to_check \<union> {hd ?c'}" by auto
      moreover from False hd_c' have "?f current \<noteq> hd ?c'" by auto
      moreover from False have "?f current \<noteq> current" by auto
      ultimately show ?thesis using setT' by auto
    qed
    have disj': "set ?c' \<inter> set ?T' = {}"
      using disj setT' by auto
    have inj': "inj_on ?f (set ?T' \<union> set ?c')"
    proof -
      from mem setT' have "set ?T' \<union> set ?c' = set to_check \<union> set cycle" by auto
      with inj show ?thesis by simp
    qed
    have chain': "set (tl (?c' @ [?f current])) \<subseteq> ?f ` set ?c'"
    proof -
      have "tl (?c' @ [?f current]) = tl ?c' @ [?f current]" by (cases cycle) simp_all
      with chain show ?thesis by auto
    qed
    have hd': "hd (?c' @ [?f current]) = hd ?c'" by (cases cycle) simp_all
    from closed' hd' have closed'': "?f ` set ?T' \<subseteq> set ?T' \<union> {hd (?c' @ [?f current])}"
      by simp
    from dist have dist': "distinct ?T'" by simp
    from "1.IH" [OF _ refl refl refl False dist' nxtT disj' inj' chain' closed''] mem
    obtain to_check' cycles' where
      r: "inner_loop self ?T' ?c' (?f current) cycles = Inr (to_check', cycles')" and
      p: "distinct to_check'" "set to_check' \<subseteq> set ?T'" "?f ` set to_check' \<subseteq> set to_check'"
      by blast
    from mem False r
    have "inner_loop self to_check cycle current cycles = Inr (to_check', cycles')"
      by (simp add: inner_loop.simps [of self to_check] Let_def)
    with p setT' show ?thesis by auto
  qed
qed

lemma outer_loop_returns:
  assumes "distinct to_check"
    and "inj_on (call self) (set to_check)"
    and "call self ` set to_check \<subseteq> set to_check"
  shows "\<exists>result. outer_loop self to_check cycles = Inr result"
  using assms
proof (induction self to_check cycles rule: outer_loop.induct)
  case (1 self cycles)
  then show ?case by (simp add: outer_loop.simps)
next
  case (2 self current rest cycles)
  let ?tc = "current # rest"
  from "2.prems" have
    "\<exists>to_check' cycles'.
        inner_loop self ?tc [] current cycles = Inr (to_check', cycles') \<and>
        distinct to_check' \<and> set to_check' \<subseteq> set ?tc \<and>
        call self ` set to_check' \<subseteq> set to_check'"
    by (intro inner_loop_returns) auto
  then obtain to_check' cycles' where
    r: "inner_loop self ?tc [] current cycles = Inr (to_check', cycles')" and
    d: "distinct to_check'" and s: "set to_check' \<subseteq> set ?tc" and
    c: "call self ` set to_check' \<subseteq> set to_check'"
    by blast
  from "2.prems"(2) s have i: "inj_on (call self) (set to_check')"
    by (rule inj_on_subset)
  from "2.IH" [OF r refl d i c] r show ?case
    by (simp add: outer_loop.simps)
qed

lemma distinct_snd_same_key:
  "distinct (map snd m) \<Longrightarrow> (x, v) \<in> set m \<Longrightarrow> (y, v) \<in> set m \<Longrightarrow> x = y"
  by (induction m) force+

lemma valid_perm_entry:
  "valid_perm self \<Longrightarrow> (k, v) \<in> set (cmap self) \<Longrightarrow> k \<noteq> v \<and> 1 \<le> k \<and> k \<le> cdim self"
  unfolding valid_perm_def by blast

lemma valid_perm_value_is_key:
  "valid_perm self \<Longrightarrow> (k, v) \<in> set (cmap self) \<Longrightarrow> v \<in> fst ` set (cmap self)"
proof -
  assume v: "valid_perm self" and kv: "(k, v) \<in> set (cmap self)"
  from kv have "v \<in> snd ` set (cmap self)" by force
  with v show ?thesis by (simp add: valid_perm_def)
qed

lemma valid_perm_call_in_range:
  assumes v: "valid_perm self" and x: "x \<in> {1..cdim self}"
  shows "call self x \<in> {1..cdim self}"
proof (cases "x \<in> fst ` set (cmap self)")
  case True
  then obtain w where xw: "(x, w) \<in> set (cmap self)" by force
  with v have "call self x = w" by (simp add: valid_perm_def call_key)
  moreover from valid_perm_value_is_key [OF v xw]
  obtain u where "(w, u) \<in> set (cmap self)" by force
  from valid_perm_entry [OF v this] have "1 \<le> w \<and> w \<le> cdim self" by simp
  ultimately show ?thesis by simp
next
  case False
  with x show ?thesis by (simp add: call_no_key)
qed

lemma valid_perm_call_inj:
  assumes v: "valid_perm self"
  shows "inj_on (call self) A"
proof (rule inj_onI)
  fix x y assume eq: "call self x = call self y"
  have key_val: "call self k \<in> fst ` set (cmap self) \<and> (k, call self k) \<in> set (cmap self)"
    if "k \<in> fst ` set (cmap self)" for k
  proof -
    from that obtain w where kw: "(k, w) \<in> set (cmap self)" by force
    with v have c: "call self k = w" by (simp add: valid_perm_def call_key)
    from valid_perm_value_is_key [OF v kw] c kw show ?thesis by simp
  qed
  show "x = y"
  proof (cases "x \<in> fst ` set (cmap self)")
    case xk: True
    show ?thesis
    proof (cases "y \<in> fst ` set (cmap self)")
      case True
      from key_val [OF xk] key_val [OF True] eq
      have "(x, call self x) \<in> set (cmap self)" "(y, call self x) \<in> set (cmap self)" by simp_all
      moreover from v have "distinct (map snd (cmap self))" by (simp add: valid_perm_def)
      ultimately show ?thesis
        by (rule distinct_snd_same_key [rotated])
    next
      case False
      then have "call self y = y" by (rule call_no_key)
      with key_val [OF xk] eq False show ?thesis by simp
    qed
  next
    case xn: False
    then have cx: "call self x = x" by (rule call_no_key)
    show ?thesis
    proof (cases "y \<in> fst ` set (cmap self)")
      case True
      with key_val [OF True] eq cx xn show ?thesis by simp
    next
      case False
      then have "call self y = y" by (rule call_no_key)
      with cx eq show ?thesis by simp
    qed
  qed
qed

text \<open>
  Claim C10. On a permutation of the data model the extraction of the cycles returns a
  list of cycles, so that \<^verbatim>\<open>__repr__\<close> and \<^verbatim>\<open>decompose\<close> return a text.
\<close>

theorem extraction_returns_on_valid_permutations:
  "valid_perm self \<Longrightarrow>
     \<exists>cycles. create_representation self = Inr cycles \<and>
              repr self = Inr (prettify cycles) \<and>
              (\<exists>text. decompose self = Inr text)"
proof -
  assume v: "valid_perm self"
  have "call self ` set [1..get_dimension self] \<subseteq> set [1..get_dimension self]"
    using valid_perm_call_in_range [OF v] by (auto simp: get_dimension_def)
  moreover have "inj_on (call self) (set [1..get_dimension self])"
    using v by (rule valid_perm_call_inj)
  moreover have "distinct [1..get_dimension self]" by simp
  ultimately obtain cycles where "outer_loop self [1..get_dimension self] [] = Inr cycles"
    using outer_loop_returns by blast
  then show ?thesis
    by (simp add: create_representation_def repr_def decompose_def)
qed

theorem extraction_returns_on_valid_permutations_witness:
  "valid_perm \<lparr>cmap = [(2, 5), (5, 2), (3, 4), (4, 1), (1, 3)], cdim = 6\<rparr> \<and>
   create_representation \<lparr>cmap = [(2, 5), (5, 2), (3, 4), (4, 1), (1, 3)], cdim = 6\<rparr>
     = Inr [[1, 3, 4], [2, 5]] \<and>
   repr \<lparr>cmap = [(2, 5), (5, 2), (3, 4), (4, 1), (1, 3)], cdim = 6\<rparr> = Inr ''(1, 3, 4)(2, 5)''"
proof -
  have v: "valid_perm \<lparr>cmap = [(2, 5), (5, 2), (3, 4), (4, 1), (1, 3)], cdim = 6\<rparr>"
    by (auto simp: valid_perm_def)
  have c: "create_representation \<lparr>cmap = [(2, 5), (5, 2), (3, 4), (4, 1), (1, 3)], cdim = 6\<rparr>
     = Inr [[1, 3, 4], [2, 5]]" by code_simp
  have p: "prettify [[1, 3, 4], [2, 5]] = ''(1, 3, 4)(2, 5)''" by code_simp
  from extraction_returns_on_valid_permutations [OF v] c p v show ?thesis by auto
qed

section \<open>Printing a parsed text\<close>

subsection \<open>\<^verbatim>\<open>int(str(x))\<close> is \<open>x\<close>\<close>

lemma is_digit_char_of: "d < 10 \<Longrightarrow> is_digit (char_of (48 + d :: nat))"
  by (simp add: is_digit_def)

lemma digit_val_char_of: "d < 10 \<Longrightarrow> digit_val (char_of (48 + d :: nat)) = int d"
  by (simp add: digit_val_def)

lemma nat_digits_digits: "c \<in> set (nat_digits n) \<Longrightarrow> is_digit c"
proof (induction n arbitrary: c rule: nat_digits.induct)
  case (1 n)
  show ?case
  proof (cases "n < 10")
    case True
    with "1.prems" show ?thesis
      by (simp add: nat_digits.simps [of n] is_digit_char_of)
  next
    case False
    with "1.prems" have "c \<in> set (nat_digits (n div 10)) \<or> c = char_of (48 + n mod 10)"
      by (auto simp: nat_digits.simps [of n])
    with "1.IH" [OF False] show ?thesis
      by (auto simp: is_digit_char_of)
  qed
qed

lemma nat_digits_nonempty: "nat_digits n \<noteq> []"
  by (subst nat_digits.simps) simp

lemma int_char_py_str: "c \<in> set (py_str x) \<Longrightarrow> int_char c"
  by (auto simp: py_str_def int_char_def dest: nat_digits_digits split: if_splits)

lemma py_str_nonempty: "py_str x \<noteq> []"
  by (simp add: py_str_def nat_digits_nonempty)

lemma int_char_not_special:
  "int_char c \<Longrightarrow> \<not> isspace c \<and> c \<noteq> CHR '','' \<and> c \<noteq> CHR ''('' \<and> c \<noteq> CHR '')''"
  by (auto simp: int_char_def is_digit_def isspace_def)


lemma str_strip_id:
  assumes "s \<noteq> []" and "\<not> isspace (hd s)" and "\<not> isspace (last s)"
  shows "str_strip s = s"
proof -
  from assms have "dropWhile isspace s = s" by (cases s) simp_all
  moreover from assms have "dropWhile isspace (rev s) = rev s"
    by (cases "rev s") (simp_all add: hd_rev [symmetric])
  ultimately show ?thesis by (simp add: str_strip_def)
qed

lemma digits_value_digits:
  "(\<And>c. c \<in> set ds \<Longrightarrow> is_digit c)
     \<Longrightarrow> digits_value acc ds = Some (fold (\<lambda>c a. 10 * a + digit_val c) ds acc)"
  by (induction acc ds rule: digits_value.induct) simp_all

lemma unsigned_value_digits:
  assumes "ds \<noteq> []" and "\<And>c. c \<in> set ds \<Longrightarrow> is_digit c"
  shows "unsigned_value ds = Some (fold (\<lambda>c a. 10 * a + digit_val c) ds 0)"
proof (cases ds)
  case Nil
  with assms(1) show ?thesis by simp
next
  case (Cons c cs)
  with assms(2) have "is_digit c" and "\<And>c. c \<in> set cs \<Longrightarrow> is_digit c" by simp_all
  then show ?thesis
    by (simp add: unsigned_value_def Cons digits_value_digits)
qed

lemma fold_nat_digits: "fold (\<lambda>c a. 10 * a + digit_val c) (nat_digits n) 0 = int n"
proof (induction n rule: nat_digits.induct)
  case (1 n)
  show ?case
  proof (cases "n < 10")
    case True
    then show ?thesis by (simp add: nat_digits.simps [of n] digit_val_char_of)
  next
    case False
    have "n mod 10 < 10" by simp
    then have "digit_val (char_of (48 + n mod 10)) = int (n mod 10)"
      by (rule digit_val_char_of)
    with False "1.IH" [OF False] show ?thesis
      by (simp add: nat_digits.simps [of n] zdiv_int zmod_int)
  qed
qed

lemma unsigned_value_nat_digits: "unsigned_value (nat_digits n) = Some (int n)"
  by (simp add: unsigned_value_digits nat_digits_nonempty nat_digits_digits fold_nat_digits)

lemma py_str_ends:
  "\<not> isspace (hd (py_str x)) \<and> \<not> isspace (last (py_str x))"
proof -
  have "hd (py_str x) \<in> set (py_str x)" "last (py_str x) \<in> set (py_str x)"
    using py_str_nonempty [of x] by simp_all
  then show ?thesis
    by (auto dest!: int_char_py_str int_char_not_special)
qed

lemma is_digit_not_sign: "is_digit c \<Longrightarrow> c \<noteq> CHR ''-'' \<and> c \<noteq> CHR ''+''"
  by (auto simp: is_digit_def)

lemma py_int_py_str: "py_int (py_str x) = Inr x"
proof -
  have strip: "str_strip (py_str x) = py_str x"
    using py_str_nonempty py_str_ends by (simp add: str_strip_id)
  show ?thesis
  proof (cases "x < 0")
    case True
    then show ?thesis
      by (simp add: py_int_def strip Let_def) (simp add: py_str_def unsigned_value_nat_digits)
  next
    case False
    obtain c cs where ccs: "nat_digits (nat x) = c # cs"
      using nat_digits_nonempty [of "nat x"] by (cases "nat_digits (nat x)") auto
    then have "is_digit c" using nat_digits_digits [of c "nat x"] by simp
    then have "c \<noteq> CHR ''-''" "c \<noteq> CHR ''+''" by (simp_all add: is_digit_not_sign)
    moreover have "unsigned_value (c # cs) = Some x"
      using unsigned_value_nat_digits [of "nat x"] False by (simp add: ccs)
    ultimately show ?thesis
      using False by (simp add: py_int_def strip Let_def) (simp add: py_str_def ccs)
  qed
qed

subsection \<open>Splitting a joined text\<close>

lemma str_split_nonempty: "str_split sep s \<noteq> []"
  by (induction sep s rule: str_split.induct) (auto split: list.splits)

lemma split_comma_plain: "CHR '','' \<notin> set t \<Longrightarrow> str_split '','' t = [t]"
  by (induction t) auto

lemma split_comma_append:
  "CHR '','' \<notin> set t \<Longrightarrow> str_split '','' (t @ CHR '','' # rest) = t # str_split '','' rest"
  by (induction t) auto

lemma split_comma_join:
  assumes "toks \<noteq> []" and "\<And>t. t \<in> set toks \<Longrightarrow> CHR '','' \<notin> set t"
    and "CHR '','' \<notin> set pre"
  shows "str_split '','' (pre @ str_join '', '' toks)
           = (pre @ hd toks) # map ((#) CHR '' '') (tl toks)"
  using assms
proof (induction toks arbitrary: pre rule: induct_list012)
  case 1
  then show ?case by simp
next
  case (2 x)
  then show ?case by (simp add: split_comma_plain)
next
  case (3 x y ys)
  from "3.prems" have nc: "CHR '','' \<notin> set (pre @ x)" by simp
  have "str_split '','' (pre @ str_join '', '' (x # y # ys))
          = str_split '','' ((pre @ x) @ CHR '','' # (CHR '' '' # str_join '', '' (y # ys)))"
    by simp
  also from nc have "\<dots> = (pre @ x) # str_split '','' (CHR '' '' # str_join '', '' (y # ys))"
    by (rule split_comma_append)
  also have "str_split '','' (CHR '' '' # str_join '', '' (y # ys))
          = ('' '' @ hd (y # ys)) # map ((#) CHR '' '') (tl (y # ys))"
    using "3.IH"(2) [of "'' ''"] "3.prems" by simp
  finally show ?case by simp
qed

lemma str_strip_after_space:
  assumes "s \<noteq> []" and "\<not> isspace (hd s)" and "\<not> isspace (last s)"
  shows "str_strip (CHR '' '' # s) = s"
proof -
  from assms have "dropWhile isspace (CHR '' '' # s) = s"
    by (cases s) (simp_all add: isspace_def)
  moreover from assms have "dropWhile isspace (rev s) = rev s"
    by (cases "rev s") (simp_all add: hd_rev [symmetric])
  ultimately show ?thesis by (simp add: str_strip_def)
qed

lemma tokens_of_join:
  assumes "c \<noteq> []"
  shows "tokens_of (str_join '', '' (map py_str c)) = map py_str c"
proof -
  let ?toks = "map py_str c"
  have no_comma: "CHR '','' \<notin> set t" if "t \<in> set ?toks" for t
    using that by (auto dest!: int_char_py_str int_char_not_special)
  from assms have ne: "?toks \<noteq> []" by simp
  from split_comma_join [OF ne no_comma, of "[]"]
  have "str_split '','' (str_join '', '' ?toks) = hd ?toks # map ((#) CHR '' '') (tl ?toks)"
    by simp
  moreover have "map str_strip (hd ?toks # map ((#) CHR '' '') (tl ?toks)) = ?toks"
  proof -
    have "str_strip (hd ?toks) = hd ?toks"
      using assms py_str_nonempty py_str_ends by (cases c) (simp_all add: str_strip_id)
    moreover have "map str_strip (map ((#) CHR '' '') (tl ?toks)) = tl ?toks"
      using py_str_nonempty py_str_ends
      by (induction c) (simp_all add: str_strip_after_space map_tl)
    ultimately show ?thesis using ne by simp
  qed
  ultimately have "tokens_of (str_join '', '' ?toks) = filter (\<lambda>x. x \<noteq> []) ?toks"
    by (simp add: tokens_of_def)
  also have "\<dots> = ?toks"
    by (induction c) (simp_all add: py_str_nonempty)
  finally show ?thesis .
qed

lemma ints_of_py_str: "ints_of (map py_str c) = Inr c"
  by (induction c) (simp_all add: py_int_py_str)

lemma split_brackets_plain: "CHR '')'' \<notin> set t \<Longrightarrow> str_split '')('' t = [t]"
  by (induction t) auto

lemma split_brackets_append:
  "CHR '')'' \<notin> set t \<Longrightarrow> str_split '')('' (t @ '')('' @ rest) = t # str_split '')('' rest"
  by (induction t) auto

lemma split_brackets_join:
  assumes "pieces \<noteq> []" and "\<And>t. t \<in> set pieces \<Longrightarrow> CHR '')'' \<notin> set t"
  shows "str_split '')('' (str_join '')('' pieces) = pieces"
  using assms
proof (induction pieces rule: induct_list012)
  case 1
  then show ?case by simp
next
  case (2 x)
  then show ?case by (simp add: split_brackets_plain)
next
  case (3 x y ys)
  from "3.prems" have "CHR '')'' \<notin> set x" by simp
  then have "str_split '')('' (x @ '')('' @ str_join '')('' (y # ys))
               = x # str_split '')('' (str_join '')('' (y # ys))"
    by (rule split_brackets_append)
  moreover from "3.prems" have "str_split '')('' (str_join '')('' (y # ys)) = y # ys"
    by (intro "3.IH"(2)) auto
  ultimately show ?case by simp
qed

lemma set_str_join: "set (str_join sep xs) \<subseteq> set sep \<union> \<Union> (set ` set xs)"
  by (induction sep xs rule: str_join.induct) auto

lemma piece_no_bracket:
  "CHR '')'' \<notin> set (str_join '', '' (map py_str c))"
proof
  assume "CHR '')'' \<in> set (str_join '', '' (map py_str c))"
  with set_str_join [of "'', ''" "map py_str c"]
  have "CHR '')'' \<in> set '', '' \<or> (\<exists>x \<in> set c. CHR '')'' \<in> set (py_str x))" by auto
  then show False
    by (auto dest!: int_char_py_str int_char_not_special)
qed

lemma read_cycles_pieces:
  "[] \<notin> set cs \<Longrightarrow> read_cycles (map (\<lambda>c. str_join '', '' (map py_str c)) cs) = Inr cs"
  by (induction cs) (auto simp: tokens_of_join ints_of_py_str Let_def)

lemma str_join_nonempty: "xs \<noteq> [] \<Longrightarrow> [] \<notin> set xs \<Longrightarrow> str_join sep xs \<noteq> []"
  by (induction sep xs rule: str_join.induct) auto

lemma prettify_nonempty:
  assumes "cs \<noteq> []" and "[] \<notin> set cs"
  shows "prettify cs = ''('' @ str_join '')('' (map (\<lambda>c. str_join '', '' (map py_str c)) cs) @ '')''"
proof -
  let ?pieces = "map (\<lambda>c. str_join '', '' (map py_str c)) cs"
  have "[] \<notin> set ?pieces"
  proof
    assume "[] \<in> set ?pieces"
    then obtain c where c: "c \<in> set cs" and e: "str_join '', '' (map py_str c) = []" by auto
    from c assms(2) have "map py_str c \<noteq> []" by auto
    moreover have "[] \<notin> set (map py_str c)"
    proof
      assume "[] \<in> set (map py_str c)"
      then obtain x where "[] = py_str x" by auto
      with py_str_nonempty [of x] show False by simp
    qed
    ultimately have "str_join '', '' (map py_str c) \<noteq> []" by (rule str_join_nonempty)
    with e show False by simp
  qed
  moreover from assms(1) have "?pieces \<noteq> []" by simp
  ultimately have "str_join '')('' ?pieces \<noteq> []" by (intro str_join_nonempty)
  then have "''('' @ str_join '')('' ?pieces @ '')'' \<noteq> ''()''" by simp
  then show ?thesis
    by (simp add: prettify_def Let_def comp_def)
qed

lemma parse_cycles_prettify:
  assumes "cs \<noteq> []" and "[] \<notin> set cs"
  shows "parse_cycles (prettify cs) = Inr cs"
proof -
  let ?pieces = "map (\<lambda>c. str_join '', '' (map py_str c)) cs"
  have "butlast (tl (prettify cs)) = str_join '')('' ?pieces"
    by (simp add: prettify_nonempty [OF assms] butlast_append)
  moreover have "str_split '')('' (str_join '')('' ?pieces) = ?pieces"
    using assms(1) by (intro split_brackets_join) (auto simp: piece_no_bracket)
  ultimately show ?thesis
    using assms(2) by (simp add: parse_cycles_def read_cycles_pieces)
qed

subsection \<open>The product of disjoint cycles follows each of them\<close>

lemma followsD:
  "follows self c \<Longrightarrow> c = pre @ x # post \<Longrightarrow> call self x = hd (post @ [hd c])"
  unfolding follows_def by blast

lemma map_of_link_loop_other:
  "x \<notin> set (butlast seq) \<Longrightarrow> map_of (link_loop seq m) x = map_of m x"
  by (induction seq m rule: link_loop.induct) (auto simp: AList.update_conv')

lemma map_of_link_loop_next:
  "distinct (butlast seq) \<Longrightarrow> seq = pre @ x # y # post
     \<Longrightarrow> map_of (link_loop seq m) x = Some y"
proof (induction pre arbitrary: seq m)
  case Nil
  then have "x \<notin> set (butlast (y # post))" by simp
  then have "map_of (link_loop (y # post) (AList.update x y m)) x = map_of (AList.update x y m) x"
    by (rule map_of_link_loop_other)
  with Nil show ?case by (simp add: AList.update_conv')
next
  case (Cons a pre)
  obtain b s where bs: "pre @ x # y # post = b # s" by (cases pre) auto
  with Cons.prems have seq: "seq = a # b # s" by simp
  with Cons.prems have "distinct (butlast (b # s))" by simp
  from Cons.IH [OF this bs [symmetric]] seq show ?case by simp
qed

lemma call_generate_single_cycle:
  assumes g: "generate_single_cycle c = Inr b"
  shows "call b x = (case map_of (link_loop (c @ [hd c]) []) x of None \<Rightarrow> x | Some w \<Rightarrow> w)"
  using g by (auto simp: generate_single_cycle_def call_new_Cycle split: sum.splits)

lemma follows_generate_single_cycle:
  assumes g: "generate_single_cycle c = Inr b" and d: "distinct c"
  shows "follows b c"
  unfolding follows_def
proof (intro allI impI)
  fix pre x post assume c: "c = pre @ x # post"
  obtain y rest where yr: "post @ [hd c] = y # rest" by (cases post) auto
  from c have "c @ [h] = pre @ x # (post @ [h])" for h by simp
  with yr have "c @ [hd c] = pre @ x # y # rest" by simp
  moreover from d have "distinct (butlast (c @ [hd c]))" by simp
  ultimately have "map_of (link_loop (c @ [hd c]) []) x = Some y"
    by (intro map_of_link_loop_next)
  with yr show "call b x = hd (post @ [hd c])"
    by (simp add: call_generate_single_cycle [OF g])
qed

lemma fixes_generate_single_cycle:
  assumes g: "generate_single_cycle c = Inr b" and x: "x \<notin> set c"
  shows "call b x = x"
proof -
  from x have "x \<notin> set (butlast (c @ [hd c]))" by simp
  then have "map_of (link_loop (c @ [hd c]) []) x = map_of [] x"
    by (rule map_of_link_loop_other)
  then show ?thesis by (simp add: call_generate_single_cycle [OF g])
qed

lemma fold_max_ge: "(x::int) \<in> set (a # xs) \<Longrightarrow> x \<le> fold max xs a"
proof -
  assume "x \<in> set (a # xs)"
  then have "x \<le> Max (set (a # xs))" by (intro Max_ge) simp_all
  then show ?thesis by (simp only: Max.set_eq_fold)
qed

lemma cdim_generate_single_cycle:
  assumes g: "generate_single_cycle c = Inr b" and x: "x \<in> set c"
  shows "x \<le> cdim b"
proof (cases c)
  case Nil
  with x show ?thesis by simp
next
  case (Cons a xs)
  with g have "cdim b = fold max xs a"
    by (auto simp: generate_single_cycle_def py_max_def cdim_new_Cycle)
  with x Cons show ?thesis by (simp add: fold_max_ge)
qed

lemma call_mul:
  "call (mul a b) x =
     (if 1 \<le> x \<and> x \<le> max (cdim a) (cdim b) then call a (call b x) else x)"
  by (simp add: mul_def Let_def get_dimension_def call_new_Cycle map_of_mul_loop)

lemma cdim_mul: "cdim (mul a b) = max (cdim a) (cdim b)"
  by (simp add: mul_def Let_def get_dimension_def cdim_new_Cycle)

lemma follows_in_cycle: "follows self c \<Longrightarrow> x \<in> set c \<Longrightarrow> call self x \<in> set c"
proof -
  assume f: "follows self c" and x: "x \<in> set c"
  then obtain pre post where c: "c = pre @ x # post" by (auto simp: in_set_conv_decomp)
  with f have cx: "call self x = hd (post @ [hd c])" by (rule followsD)
  show ?thesis
  proof (cases post)
    case Nil
    with cx c show ?thesis by (cases pre) simp_all
  next
    case (Cons y ys)
    with cx c show ?thesis by simp
  qed
qed

lemma follows_product:
  assumes "cs \<noteq> []"
    and "list_all2 (\<lambda>c b. generate_single_cycle c = Inr b) cs bs"
    and "distinct (concat cs)"
    and "\<forall>x \<in> set (concat cs). 1 \<le> x"
  shows "(\<forall>c \<in> set cs. follows (compose_right bs) c) \<and>
         (\<forall>x. x \<notin> set (concat cs) \<longrightarrow> call (compose_right bs) x = x) \<and>
         (\<forall>x \<in> set (concat cs). x \<le> cdim (compose_right bs))"
  using assms
proof (induction cs arbitrary: bs rule: list_nonempty_induct)
  case (single c)
  then obtain b where bs: "bs = [b]" and g: "generate_single_cycle c = Inr b"
    by (auto simp: list_all2_Cons1)
  from single.prems have d: "distinct c" by simp
  show ?case
    using follows_generate_single_cycle [OF g d] fixes_generate_single_cycle [OF g]
      cdim_generate_single_cycle [OF g]
    by (simp add: bs)
next
  case (cons c cs)
  from cons.prems(1) obtain b bs' where bs: "bs = b # bs'"
    and g: "generate_single_cycle c = Inr b"
    and rest: "list_all2 (\<lambda>c b. generate_single_cycle c = Inr b) cs bs'"
    by (auto simp: list_all2_Cons1)
  from rest cons.hyps have "bs' \<noteq> []" by auto
  then obtain b' bs'' where bs': "bs' = b' # bs''" by (cases bs') auto
  let ?r = "compose_right bs'"
  have prod: "compose_right bs = mul b ?r" by (simp add: bs bs')
  from cons.prems have d: "distinct c" and dcs: "distinct (concat cs)"
    and disj: "set c \<inter> set (concat cs) = {}"
    and pos_c: "\<forall>x \<in> set c. 1 \<le> x" and pos_cs: "\<forall>x \<in> set (concat cs). 1 \<le> x"
    by auto
  from cons.IH [OF rest dcs pos_cs] have
    f_r: "\<And>c'. c' \<in> set cs \<Longrightarrow> follows ?r c'" and
    fix_r: "\<And>x. x \<notin> set (concat cs) \<Longrightarrow> call ?r x = x" and
    dim_r: "\<And>x. x \<in> set (concat cs) \<Longrightarrow> x \<le> cdim ?r"
    by blast+
  note f_b = follows_generate_single_cycle [OF g d]
  note fix_b = fixes_generate_single_cycle [OF g]
  note dim_b = cdim_generate_single_cycle [OF g]
  have in_c: "call (mul b ?r) x = call b x" if x: "x \<in> set c" for x
  proof -
    from x disj have "call ?r x = x" by (intro fix_r) auto
    moreover from x pos_c dim_b have "1 \<le> x \<and> x \<le> max (cdim b) (cdim ?r)" by fastforce
    ultimately show ?thesis by (simp add: call_mul)
  qed
  have in_cs: "call (mul b ?r) x = call ?r x" if c': "c' \<in> set cs" and x: "x \<in> set c'" for x c'
  proof -
    from c' x have xin: "x \<in> set (concat cs)" by auto
    from follows_in_cycle [OF f_r [OF c'] x] c' have "call ?r x \<in> set (concat cs)" by auto
    with disj have "call b (call ?r x) = call ?r x" by (intro fix_b) auto
    moreover from xin pos_cs dim_r have "1 \<le> x \<and> x \<le> max (cdim b) (cdim ?r)" by fastforce
    ultimately show ?thesis by (simp add: call_mul)
  qed
  have 1: "\<forall>c' \<in> set (c # cs). follows (compose_right bs) c'"
  proof
    fix c' assume c': "c' \<in> set (c # cs)"
    show "follows (compose_right bs) c'"
      unfolding follows_def prod
    proof (intro allI impI)
      fix pre x post assume dec: "c' = pre @ x # post"
      then have x: "x \<in> set c'" by simp
      show "call (mul b ?r) x = hd (post @ [hd c'])"
      proof (cases "c' = c")
        case True
        with x in_c have m: "call (mul b ?r) x = call b x" by simp
        from dec True have "c = pre @ x # post" by simp
        from followsD [OF f_b this] m True show ?thesis by simp
      next
        case False
        with c' have c'': "c' \<in> set cs" by simp
        from followsD [OF f_r [OF c''] dec] in_cs [OF c'' x] show ?thesis by simp
      qed
    qed
  qed
  have 2: "\<forall>x. x \<notin> set (concat (c # cs)) \<longrightarrow> call (compose_right bs) x = x"
  proof (intro allI impI)
    fix x assume "x \<notin> set (concat (c # cs))"
    then have "x \<notin> set c" "x \<notin> set (concat cs)" by simp_all
    then show "call (compose_right bs) x = x"
      by (simp add: prod call_mul fix_r fix_b)
  qed
  have 3: "\<forall>x \<in> set (concat (c # cs)). x \<le> cdim (compose_right bs)"
  proof
    fix x assume "x \<in> set (concat (c # cs))"
    then have "x \<in> set c \<or> x \<in> set (concat cs)" by simp
    then show "x \<le> cdim (compose_right bs)"
      using dim_b dim_r by (fastforce simp: prod cdim_mul)
  qed
  from 1 2 3 show ?case by blast
qed

subsection \<open>The extraction finds the cycles again\<close>

lemma inner_loop_follows:
  assumes "c = pre @ x # post" and "distinct c" and "follows self c"
    and "set (x # post) \<subseteq> set to_check"
  shows "inner_loop self to_check pre x cycles
           = Inr (fold remove1 (x # post) to_check,
                  if length c > 1 then cycles @ [c] else cycles)"
  using assms
proof (induction post arbitrary: pre x to_check)
  case Nil
  from followsD [OF Nil.prems(3) Nil.prems(1)] have "call self x = hd c" by simp
  moreover from Nil.prems(1) have "hd c \<in> set (pre @ [x])" by (cases pre) simp_all
  ultimately show ?case
    using Nil.prems by (simp add: inner_loop.simps [of self to_check] Let_def)
next
  case (Cons y post)
  from followsD [OF Cons.prems(3) Cons.prems(1)] have nxt: "call self x = y" by simp
  from Cons.prems(1,2) have fresh: "y \<notin> set (pre @ [x])" by auto
  from Cons.prems(1) have c: "c = (pre @ [x]) @ y # post" by simp
  from Cons.prems(1,2) have notin: "x \<notin> set (y # post)" by auto
  have sub: "set (y # post) \<subseteq> set (remove1 x to_check)"
  proof
    fix z assume z: "z \<in> set (y # post)"
    with notin have "z \<noteq> x" by auto
    moreover from z Cons.prems(4) have "z \<in> set to_check" by auto
    ultimately show "z \<in> set (remove1 x to_check)" by (simp add: in_set_remove1)
  qed
  from Cons.IH [OF c Cons.prems(2,3) sub]
  have "inner_loop self (remove1 x to_check) (pre @ [x]) y cycles
          = Inr (fold remove1 (y # post) (remove1 x to_check),
                 if length c > 1 then cycles @ [c] else cycles)" .
  with Cons.prems(4) nxt fresh show ?case
    by (simp add: inner_loop.simps [of self to_check] Let_def)
qed

lemma set_fold_remove1:
  "distinct xs \<Longrightarrow> set (fold remove1 ys xs) = set xs - set ys"
  by (induction ys arbitrary: xs) auto

lemma sorted_wrt_less_remove1:
  "sorted_wrt (<) (xs :: int list) \<Longrightarrow> sorted_wrt (<) (remove1 y xs)"
  by (induction xs) (auto dest: notin_set_remove1)

lemma sorted_wrt_less_fold_remove1:
  "sorted_wrt (<) (xs :: int list) \<Longrightarrow> sorted_wrt (<) (fold remove1 ys xs)"
  by (induction ys arbitrary: xs) (simp_all add: sorted_wrt_less_remove1)

lemma sorted_wrt_less_distinct: "sorted_wrt (<) (xs :: int list) \<Longrightarrow> distinct xs"
  by (induction xs) auto

lemma outer_loop_canonical:
  assumes "sorted_wrt (<) to_check"
    and "set (concat cs) \<subseteq> set to_check"
    and "\<And>x. x \<in> set to_check \<Longrightarrow> x \<notin> set (concat cs) \<Longrightarrow> call self x = x"
    and "\<And>c. c \<in> set cs \<Longrightarrow> follows self c"
    and "\<And>c. c \<in> set cs \<Longrightarrow> 2 \<le> length c"
    and "\<And>c x. c \<in> set cs \<Longrightarrow> x \<in> set c \<Longrightarrow> hd c \<le> x"
    and "distinct (concat cs)"
    and "sorted_wrt (<) (map hd cs)"
  shows "outer_loop self to_check cycles = Inr (cycles @ cs)"
  using assms
proof (induction self to_check cycles arbitrary: cs rule: outer_loop.induct)
  case (1 self cycles)
  have "cs = []"
  proof (cases cs)
    case Nil then show ?thesis .
  next
    case (Cons c cs')
    with "1.prems"(5) [of c] have "c \<noteq> []" by auto
    with Cons "1.prems"(2) show ?thesis by (cases c) auto
  qed
  then show ?case by (simp add: outer_loop.simps)
next
  case (2 self t rest cycles)
  note sorted = "2.prems"(1) and sub = "2.prems"(2) and fixed = "2.prems"(3)
    and fol = "2.prems"(4) and len = "2.prems"(5) and least = "2.prems"(6)
    and dist = "2.prems"(7) and heads = "2.prems"(8)
  from sorted have t_min: "\<And>y. y \<in> set (t # rest) \<Longrightarrow> t \<le> y" by auto
  from sorted have sorted_rest: "sorted_wrt (<) rest" and t_rest: "t \<notin> set rest" by auto
  show ?case
  proof (cases "t \<in> set (concat cs)")
    case False
    with fixed have "call self t = t" by simp
    then have inner: "inner_loop self (t # rest) [] t cycles = Inr (rest, cycles)"
      by (rule inner_loop_fixed)
    from sub False have sub': "set (concat cs) \<subseteq> set rest" by auto
    have "outer_loop self rest cycles = Inr (cycles @ cs)"
      using inner refl sorted_rest sub' fixed fol len least dist heads
      by (intro "2.IH") auto
    with inner show ?thesis by (simp add: outer_loop.simps)
  next
    case True
    then obtain c' where c': "c' \<in> set cs" and tc': "t \<in> set c'" by auto
    from c' obtain c cs' where cs: "cs = c # cs'" by (cases cs) auto
    from len [OF c'] have "c' \<noteq> []" by auto
    then have "hd c' \<in> set c'" by simp
    with c' sub have "hd c' \<in> set (t # rest)" by auto
    from t_min [OF this] least [OF c' tc'] have hd_c': "hd c' = t" by simp
    have "c' = c"
    proof (rule ccontr)
      assume "c' \<noteq> c"
      with c' cs have "c' \<in> set cs'" by simp
      with heads cs have "hd c < hd c'" by auto
      moreover from len [of c] cs have "c \<noteq> []" by auto
      then have "hd c \<in> set c" by simp
      with sub cs have "hd c \<in> set (t # rest)" by auto
      from t_min [OF this] have "t \<le> hd c" .
      ultimately show False using hd_c' by simp
    qed
    with hd_c' have hd_c: "hd c = t" by simp
    from len [of c] cs have len_c: "2 \<le> length c" by simp
    then obtain post where c: "c = [] @ t # post" using hd_c by (cases c) auto
    from dist cs have dc: "distinct c" and dcs': "distinct (concat cs')"
      and disj: "set c \<inter> set (concat cs') = {}" by auto
    from fol [of c] cs have fc: "follows self c" by simp
    from sub cs c have subc: "set (t # post) \<subseteq> set (t # rest)" by auto
    from inner_loop_follows [OF c dc fc subc, of cycles] len_c c
    have inner: "inner_loop self (t # rest) [] t cycles
                   = Inr (fold remove1 c (t # rest), cycles @ [c])"
      by auto
    let ?tc = "fold remove1 c (t # rest)"
    from sorted have d_tc: "distinct (t # rest)" by (rule sorted_wrt_less_distinct)
    have set_tc: "set ?tc = set (t # rest) - set c"
      using d_tc by (rule set_fold_remove1)
    have s1: "sorted_wrt (<) ?tc" using sorted by (rule sorted_wrt_less_fold_remove1)
    have s2: "set (concat cs') \<subseteq> set ?tc"
      using sub cs disj set_tc by auto
    have s3: "call self x = x" if "x \<in> set ?tc" and "x \<notin> set (concat cs')" for x
      using that set_tc cs by (intro fixed) auto
    have "outer_loop self ?tc (cycles @ [c]) = Inr ((cycles @ [c]) @ cs')"
      using inner refl s1 s2 s3 fol len least dcs' heads cs
      by (intro "2.IH") auto
    with inner cs show ?thesis by (simp add: outer_loop.simps)
  qed
qed

lemma create_representation_product:
  assumes wf: "well_formed_cycles cs" and sf: "smallest_first cs"
    and bs: "list_all2 (\<lambda>c b. generate_single_cycle c = Inr b) cs bs"
  shows "create_representation (compose_right bs) = Inr cs"
proof -
  let ?p = "compose_right bs"
  from wf have ne: "cs \<noteq> []" and len: "\<And>c. c \<in> set cs \<Longrightarrow> 2 \<le> length c"
    and dist: "distinct (concat cs)" and pos: "\<forall>x \<in> set (concat cs). 1 \<le> x"
    and heads: "sorted_wrt (<) (map hd cs)"
    by (simp_all add: well_formed_cycles_def)
  from sf have least: "\<And>c x. c \<in> set cs \<Longrightarrow> x \<in> set c \<Longrightarrow> hd c \<le> x"
    by (simp add: smallest_first_def)
  from follows_product [OF ne bs dist pos] have
    fol: "\<And>c. c \<in> set cs \<Longrightarrow> follows ?p c" and
    fixed: "\<And>x. x \<notin> set (concat cs) \<Longrightarrow> call ?p x = x" and
    bound: "\<And>x. x \<in> set (concat cs) \<Longrightarrow> x \<le> cdim ?p"
    by blast+
  have sub: "set (concat cs) \<subseteq> set [1..cdim ?p]"
  proof
    fix x assume x: "x \<in> set (concat cs)"
    with pos have "1 \<le> x" by blast
    with bound [OF x] show "x \<in> set [1..cdim ?p]" by simp
  qed
  have "outer_loop ?p [1..cdim ?p] [] = Inr ([] @ cs)"
    using sorted_wrt_upto sub fixed fol len least dist heads
    by (rule outer_loop_canonical)
  then show ?thesis by (simp add: create_representation_def get_dimension_def)
qed

text \<open>
  Claim C4, as the code has it. For every text of disjoint cycles with the cycles in
  strictly ascending order of their first elements, without singleton cycles, and with
  each cycle starting at its least element, parsing the text and printing the result
  gives the text back.
\<close>

theorem printing_a_parsed_canonical_text:
  "well_formed_cycles cs \<Longrightarrow> smallest_first cs \<Longrightarrow>
     \<exists>p. Cycle_parse (prettify cs) = Inr p \<and> repr p = Inr (prettify cs)"
proof -
  assume wf: "well_formed_cycles cs" and sf: "smallest_first cs"
  from wf have ne: "cs \<noteq> []" and "\<forall>c \<in> set cs. 2 \<le> length c"
    by (simp_all add: well_formed_cycles_def)
  then have no_empty: "[] \<notin> set cs" by auto
  from parse_cycles_prettify [OF ne no_empty]
  have pc: "parse_cycles (prettify cs) = Inr cs" .
  from parse_cycles_builds [OF pc] obtain bs
    where bs: "list_all2 (\<lambda>c b. generate_single_cycle c = Inr b) cs bs" ..
  from Cycle_parse_of_cycles [OF pc bs]
  have "Cycle_parse (prettify cs) = Inr (compose_right bs)" .
  moreover from create_representation_product [OF wf sf bs]
  have "repr (compose_right bs) = Inr (prettify cs)" by (simp add: repr_def)
  ultimately show ?thesis by blast
qed

theorem printing_a_parsed_canonical_text_witness:
  "well_formed_cycles [[1, 4, 2], [3, 6]] \<and> smallest_first [[1, 4, 2], [3, 6]] \<and>
   prettify [[1, 4, 2], [3, 6]] = ''(1, 4, 2)(3, 6)'' \<and>
   Cycle_parse ''(1, 4, 2)(3, 6)'' =
     Inr \<lparr>cmap = [(1, 4), (2, 1), (3, 6), (4, 2), (6, 3)], cdim = 6\<rparr> \<and>
   repr \<lparr>cmap = [(1, 4), (2, 1), (3, 6), (4, 2), (6, 3)], cdim = 6\<rparr> = Inr ''(1, 4, 2)(3, 6)''"
proof -
  have wf: "well_formed_cycles [[1, 4, 2], [3, 6]]"
    by (simp add: well_formed_cycles_def)
  have sf: "smallest_first [[1, 4, 2], [3, 6]]"
    by (simp add: smallest_first_def)
  have pr: "prettify [[1, 4, 2], [3, 6]] = ''(1, 4, 2)(3, 6)''"
    by code_simp
  have cp: "Cycle_parse ''(1, 4, 2)(3, 6)'' =
     Inr \<lparr>cmap = [(1, 4), (2, 1), (3, 6), (4, 2), (6, 3)], cdim = 6\<rparr>"
    by code_simp
  from printing_a_parsed_canonical_text [OF wf sf] pr cp
  have "repr \<lparr>cmap = [(1, 4), (2, 1), (3, 6), (4, 2), (6, 3)], cdim = 6\<rparr>
          = Inr ''(1, 4, 2)(3, 6)''" by simp
  with wf sf pr cp show ?thesis by simp
qed

text \<open>
  Without the last condition the claim fails: the text \<^verbatim>\<open>(2, 3, 1)\<close> has one cycle, no
  singleton, and is printed back as \<^verbatim>\<open>(1, 2, 3)\<close>.
\<close>

theorem listed_order_is_not_printed_back:
  "well_formed_cycles [[2, 3, 1]] \<and>
   prettify [[2, 3, 1]] = ''(2, 3, 1)'' \<and>
   Cycle_parse ''(2, 3, 1)'' = Inr \<lparr>cmap = [(2, 3), (3, 1), (1, 2)], cdim = 3\<rparr> \<and>
   repr \<lparr>cmap = [(2, 3), (3, 1), (1, 2)], cdim = 3\<rparr> = Inr ''(1, 2, 3)'' \<and>
   repr \<lparr>cmap = [(2, 3), (3, 1), (1, 2)], cdim = 3\<rparr> \<noteq> Inr ''(2, 3, 1)''"
proof -
  have "well_formed_cycles [[2, 3, 1]]" by (simp add: well_formed_cycles_def)
  moreover have "prettify [[2, 3, 1]] = ''(2, 3, 1)''" by code_simp
  moreover have "Cycle_parse ''(2, 3, 1)'' = Inr \<lparr>cmap = [(2, 3), (3, 1), (1, 2)], cdim = 3\<rparr>"
    by code_simp
  moreover have r: "repr \<lparr>cmap = [(2, 3), (3, 1), (1, 2)], cdim = 3\<rparr> = Inr ''(1, 2, 3)''"
    by code_simp
  moreover have "repr \<lparr>cmap = [(2, 3), (3, 1), (1, 2)], cdim = 3\<rparr> \<noteq> Inr ''(2, 3, 1)''"
    by (simp add: r)
  ultimately show ?thesis by blast
qed

end
